theory Spec2Isabelle
  imports Main "HOL-Library.AList"
begin

section \<open>The Kafka channel dispatcher (package dispatcher)\<close>

text \<open>
  A shallow embedding of \<^verbatim>\<open>DispatcherImpl\<close>: its constructor, \<^verbatim>\<open>Shutdown\<close>,
  \<^verbatim>\<open>UpdateSubscriptions\<close>, \<^verbatim>\<open>startConsuming\<close>, \<^verbatim>\<open>closeConsumerGroup\<close> and
  \<^verbatim>\<open>ConfigChanged\<close>.

  Go pointers to heap objects whose identity matters (consumer-group handles, stop
  channels) are natural numbers allocated from a counter in the \<open>world\<close>; the effects of
  the code on its collaborators are appended to a chronological list of events. A Go
  \<^verbatim>\<open>error\<close> is the string of its message, \<^verbatim>\<open>nil\<close> is \<open>None\<close>. Calls on the logger are
  not part of the model, with one exception: \<^verbatim>\<open>Logger.Fatal\<close>, which ends the process.
\<close>

subsection \<open>Data\<close>

text \<open>\<^verbatim>\<open>eventingduck.SubscriberSpec\<close>; \<^verbatim>\<open>types.UID\<close> is a string. The three pointer fields
  are compared by Go as pointers; an option of a string stands for each of them.\<close>

record SubscriberSpec =
  UID :: string
  Generation :: int
  SubscriberURI :: "string option"
  ReplyURI :: "string option"
  Delivery :: "string option"

text \<open>\<^verbatim>\<open>sarama.Config\<close>, reduced to the fields this package reads (\<^verbatim>\<open>ClientID\<close>,
  \<^verbatim>\<open>Net.SASL.User\<close>, \<^verbatim>\<open>Net.SASL.Password\<close>, the \<^verbatim>\<open>Producer\<close> section) and one field
  for all the remaining sections, each section a list of settings.\<close>

record Config =
  ClientID :: string
  SASL_User :: string
  SASL_Password :: string
  Producer :: "(string \<times> string) list"
  Consumer :: "(string \<times> string) list"

text \<open>\<^verbatim>\<open>v1.ConfigMap\<close>: its name and its data. \<^verbatim>\<open>ConfigChanged\<close> is given a pointer to one
  and reads its name at once; the pointer is taken not to be nil.\<close>

record ConfigMap =
  Name :: string
  Data :: "(string \<times> string) list"

text \<open>\<^verbatim>\<open>DispatcherConfig\<close> without \<^verbatim>\<open>Logger\<close> and \<^verbatim>\<open>StatsReporter\<close>.\<close>

record DispatcherConfig =
  ClientId :: string
  Brokers :: "string list"
  Topic :: string
  Username :: string
  Password :: string
  ChannelKey :: string
  SaramaConfig :: "Config option"
  SubscriberSpecs :: "SubscriberSpec list"

text \<open>\<^verbatim>\<open>SubscriberWrapper\<close>: the embedded spec, the group id, the consumer-group handle
  (an interface value, possibly nil) and the stop channel.\<close>

record SubscriberWrapper =
  SubscriberSpec :: SubscriberSpec
  GroupId :: string
  ConsumerGroup :: "nat option"
  StopChan :: nat

text \<open>\<^verbatim>\<open>DispatcherImpl\<close>. The Go map \<^verbatim>\<open>subscribers\<close> is an association list with
  \<^const>\<open>map_of\<close> as lookup, \<^const>\<open>AList.update\<close> as assignment and \<^const>\<open>AList.delete\<close> as
  \<^verbatim>\<open>delete\<close>; the mutex is the flag "held".\<close>

record DispatcherImpl =
  DispatcherConfig :: DispatcherConfig
  subscribers :: "(string \<times> SubscriberWrapper) list"
  consumerUpdateLock :: bool

text \<open>What the code does to the outside and to the registry, in the order it does it.
  The flag of \<open>Registered\<close> and \<open>Deregistered\<close> is the state of the dispatcher's mutex
  at that statement.\<close>

datatype event =
    GroupCreated string nat
  | GroupCreateFailed string string
  | ConsumingStarted string nat
  | Registered string bool
  | StopSignalled nat
  | GroupClosed nat
  | GroupCloseFailed nat string
  | Deregistered string bool

record world =
  next_id :: nat
  closed_chans :: "nat list"
  events :: "event list"

text \<open>The collaborators of the package, whose code is not part of it:
  \<^item> \<open>CreateConsumerGroup brokers config groupId\<close>: the error of
    \<^verbatim>\<open>consumer.CreateConsumerGroup\<close>, \<open>None\<close> when it returns a handle (a new one, taken
    from the counter of the world); the outcome is a function of the three arguments;
  \<^item> \<open>Close h\<close>: the error of \<^verbatim>\<open>Close()\<close> on the consumer group \<open>h\<close>, \<open>None\<close> when it
    succeeds (the code calls it at most once for a handle, since a second teardown
    panics before it);
  \<^item> \<open>range_order ks\<close>: the order in which a \<^verbatim>\<open>range\<close> over a map with the keys
    \<open>ks\<close> visits them (Go leaves it unspecified);
  \<^item> \<open>MergeSaramaSettings cm\<close>: \<^verbatim>\<open>kafkasarama.MergeSaramaSettings(nil, cm)\<close>.\<close>

record env =
  CreateConsumerGroup :: "string list \<Rightarrow> Config \<Rightarrow> string \<Rightarrow> string option"
  Close :: "nat \<Rightarrow> string option"
  range_order :: "string list \<Rightarrow> string list"
  MergeSaramaSettings :: "ConfigMap \<Rightarrow> string + Config"

text \<open>How a call can end without returning: a run-time panic, or \<^verbatim>\<open>Logger.Fatal\<close>
  (which logs and exits the process) with the count it logs.\<close>

datatype abort = Panic string | Fatal nat

subsection \<open>Operations\<close>

definition emit :: "event \<Rightarrow> world \<Rightarrow> world" where
  "emit e w = w\<lparr>events := events w @ [e]\<rparr>"

text \<open>\<^verbatim>\<open>make(chan struct{})\<close> allocates the stop channel.\<close>

definition NewSubscriberWrapper ::
  "SubscriberSpec \<Rightarrow> string \<Rightarrow> nat option \<Rightarrow> world \<Rightarrow> SubscriberWrapper \<times> world" where
  "NewSubscriberWrapper subscriberSpec groupId consumerGroup w =
     (\<lparr>SubscriberSpec = subscriberSpec, GroupId = groupId,
       ConsumerGroup = consumerGroup, StopChan = next_id w\<rparr>,
      w\<lparr>next_id := Suc (next_id w)\<rparr>)"

definition NewDispatcher :: "DispatcherConfig \<Rightarrow> DispatcherImpl" where
  "NewDispatcher dispatcherConfig =
     \<lparr>DispatcherConfig = dispatcherConfig, subscribers = [], consumerUpdateLock = False\<rparr>"

text \<open>\<^verbatim>\<open>fmt.Sprintf("kafka.%s", subscriberSpec.UID)\<close>\<close>

definition groupId_of :: "string \<Rightarrow> string" where
  "groupId_of uid = ''kafka.'' @ uid"

text \<open>\<^verbatim>\<open>startConsuming\<close> starts the two goroutines of a subscriber whose consumer group
  is not nil; what they do afterwards is outside this model.\<close>

definition startConsuming :: "SubscriberWrapper \<Rightarrow> world \<Rightarrow> world" where
  "startConsuming subscriber w =
     (case ConsumerGroup subscriber of
        None \<Rightarrow> w
      | Some h \<Rightarrow> emit (ConsumingStarted (UID (SubscriberSpec subscriber)) h) w)"

text \<open>\<^verbatim>\<open>closeConsumerGroup\<close>. Closing a channel that is closed already is a run-time
  panic in Go.\<close>

definition closeConsumerGroup ::
  "env \<Rightarrow> DispatcherImpl \<Rightarrow> world \<Rightarrow> SubscriberWrapper \<Rightarrow> abort + DispatcherImpl \<times> world" where
  "closeConsumerGroup e d w subscriber =
     (case ConsumerGroup subscriber of
        Some consumerGroup \<Rightarrow>
          if StopChan subscriber \<in> set (closed_chans w)
          then Inl (Panic ''close of closed channel'')
          else
            (let w1 = emit (StopSignalled (StopChan subscriber))
                        (w\<lparr>closed_chans := StopChan subscriber # closed_chans w\<rparr>)
             in case Close e consumerGroup of
                  Some err \<Rightarrow> Inr (d, emit (GroupCloseFailed consumerGroup err) w1)
                | None \<Rightarrow>
                    Inr (d\<lparr>subscribers :=
                             AList.delete (UID (SubscriberSpec subscriber)) (subscribers d)\<rparr>,
                         emit (Deregistered (UID (SubscriberSpec subscriber)) (consumerUpdateLock d))
                           (emit (GroupClosed consumerGroup) w1)))
      | None \<Rightarrow>
          Inr (d\<lparr>subscribers :=
                   AList.delete (UID (SubscriberSpec subscriber)) (subscribers d)\<rparr>,
               emit (Deregistered (UID (SubscriberSpec subscriber)) (consumerUpdateLock d)) w))"

text \<open>The loop of \<^verbatim>\<open>Shutdown\<close> over the keys in the order of the range; a key that was
  deleted before the range reached it is not visited.\<close>

fun Shutdown_range ::
  "env \<Rightarrow> string list \<Rightarrow> DispatcherImpl \<Rightarrow> world \<Rightarrow> abort + DispatcherImpl \<times> world" where
  "Shutdown_range e [] d w = Inr (d, w)"
| "Shutdown_range e (k # ks) d w =
     (case map_of (subscribers d) k of
        None \<Rightarrow> Shutdown_range e ks d w
      | Some subscriber \<Rightarrow>
          (case closeConsumerGroup e d w subscriber of
             Inl a \<Rightarrow> Inl a
           | Inr (d', w') \<Rightarrow> Shutdown_range e ks d' w'))"

definition Shutdown :: "env \<Rightarrow> DispatcherImpl \<Rightarrow> world \<Rightarrow> abort + DispatcherImpl \<times> world" where
  "Shutdown e d w = Shutdown_range e (range_order e (map fst (subscribers d))) d w"

text \<open>The body of the first loop of \<^verbatim>\<open>UpdateSubscriptions\<close>, for one of the specified
  subscribers. Its state is the dispatcher, the world, \<^verbatim>\<open>activeSubscriptions\<close> (the keys
  set to true) and \<^verbatim>\<open>failedSubscriptions\<close>.\<close>

definition subscribe ::
  "env \<Rightarrow> Config \<Rightarrow> SubscriberSpec \<Rightarrow> DispatcherImpl \<Rightarrow> world \<Rightarrow> string list \<Rightarrow>
   (SubscriberSpec \<times> string) list \<Rightarrow>
   DispatcherImpl \<times> world \<times> string list \<times> (SubscriberSpec \<times> string) list" where
  "subscribe e sc subscriberSpec d w active failed =
     (case map_of (subscribers d) (UID subscriberSpec) of
        None \<Rightarrow>
          (let groupId = groupId_of (UID subscriberSpec)
           in case CreateConsumerGroup e (Brokers (DispatcherConfig d)) sc groupId of
                Some err \<Rightarrow>
                  (d, emit (GroupCreateFailed groupId err) w, active,
                   AList.update subscriberSpec err failed)
              | None \<Rightarrow>
                  (let consumerGroup = next_id w;
                       w1 = emit (GroupCreated groupId consumerGroup)
                              (w\<lparr>next_id := Suc consumerGroup\<rparr>);
                       sw = NewSubscriberWrapper subscriberSpec groupId (Some consumerGroup) w1;
                       w2 = startConsuming (fst sw) (snd sw);
                       d' = d\<lparr>subscribers :=
                               AList.update (UID subscriberSpec) (fst sw) (subscribers d)\<rparr>;
                       w3 = emit (Registered (UID subscriberSpec) (consumerUpdateLock d)) w2
                   in (d', w3, List.insert (UID subscriberSpec) active, failed)))
      | Some _ \<Rightarrow> (d, w, List.insert (UID subscriberSpec) active, failed))"

text \<open>The first loop of \<^verbatim>\<open>UpdateSubscriptions\<close>, over the specified subscribers.\<close>

fun UpdateSubscriptions_specs ::
  "env \<Rightarrow> Config \<Rightarrow> SubscriberSpec list \<Rightarrow> DispatcherImpl \<Rightarrow> world \<Rightarrow> string list \<Rightarrow>
   (SubscriberSpec \<times> string) list \<Rightarrow>
   DispatcherImpl \<times> world \<times> string list \<times> (SubscriberSpec \<times> string) list" where
  "UpdateSubscriptions_specs e sc [] d w active failed = (d, w, active, failed)"
| "UpdateSubscriptions_specs e sc (subscriberSpec # rest) d w active failed =
     (case subscribe e sc subscriberSpec d w active failed of
        (d', w', active', failed') \<Rightarrow>
          UpdateSubscriptions_specs e sc rest d' w' active' failed')"

text \<open>The second loop of \<^verbatim>\<open>UpdateSubscriptions\<close>, over the registry.\<close>

fun UpdateSubscriptions_range ::
  "env \<Rightarrow> string list \<Rightarrow> string list \<Rightarrow> DispatcherImpl \<Rightarrow> world \<Rightarrow>
   abort + DispatcherImpl \<times> world" where
  "UpdateSubscriptions_range e active [] d w = Inr (d, w)"
| "UpdateSubscriptions_range e active (k # ks) d w =
     (case map_of (subscribers d) k of
        None \<Rightarrow> UpdateSubscriptions_range e active ks d w
      | Some subscriber \<Rightarrow>
          if UID (SubscriberSpec subscriber) \<notin> set active
          then (case closeConsumerGroup e d w subscriber of
                  Inl a \<Rightarrow> Inl a
                | Inr (d', w') \<Rightarrow> UpdateSubscriptions_range e active ks d' w')
          else UpdateSubscriptions_range e active ks
                 (d\<lparr>DispatcherConfig := (DispatcherConfig d)
                      \<lparr>SubscriberSpecs := SubscriberSpecs (DispatcherConfig d)
                                            @ [SubscriberSpec subscriber]\<rparr>\<rparr>) w)"

text \<open>\<^verbatim>\<open>UpdateSubscriptions\<close>. The result is the returned map (\<open>None\<close> for the nil map),
  the dispatcher and the world. \<^verbatim>\<open>Lock()\<close> returns with the mutex held; the deferred
  \<^verbatim>\<open>Unlock()\<close> releases it on return.\<close>

definition UpdateSubscriptions ::
  "env \<Rightarrow> DispatcherImpl \<Rightarrow> world \<Rightarrow> SubscriberSpec list \<Rightarrow>
   abort + (SubscriberSpec \<times> string) list option \<times> DispatcherImpl \<times> world" where
  "UpdateSubscriptions e d w subscriberSpecs =
     (case SaramaConfig (DispatcherConfig d) of
        None \<Rightarrow> Inr (None, d, w)
      | Some sc \<Rightarrow>
          (case UpdateSubscriptions_specs e sc subscriberSpecs
                  (d\<lparr>consumerUpdateLock := True\<rparr>) w [] [] of
             (d1, w1, active, failed) \<Rightarrow>
               (let d2 = d1\<lparr>DispatcherConfig := (DispatcherConfig d1)\<lparr>SubscriberSpecs := []\<rparr>\<rparr>
                in case UpdateSubscriptions_range e active
                          (range_order e (map fst (subscribers d2))) d2 w1 of
                     Inl a \<Rightarrow> Inl a
                   | Inr (d3, w3) \<Rightarrow>
                       Inr (Some failed, d3\<lparr>consumerUpdateLock := False\<rparr>, w3))))"

text \<open>\<^verbatim>\<open>len\<close> and indexing of a map that may be nil.\<close>

definition map_len :: "('k \<times> 'v) list option \<Rightarrow> nat" where
  "map_len m = (case m of None \<Rightarrow> 0 | Some kvs \<Rightarrow> length kvs)"

definition map_index :: "('k \<times> 'v) list option \<Rightarrow> 'k \<Rightarrow> 'v option" where
  "map_index m k = (case m of None \<Rightarrow> None | Some kvs \<Rightarrow> map_of kvs k)"

text \<open>Modelled from the spec: \<^verbatim>\<open>kafkasarama.UpdateSaramaConfig\<close>, which is not among the
  sources. The spec: it "reapplies the previously held credentials and client identifier
  onto the merge result".\<close>

definition UpdateSaramaConfig :: "Config \<Rightarrow> string \<Rightarrow> string \<Rightarrow> string \<Rightarrow> Config" where
  "UpdateSaramaConfig config clientId username password =
     config\<lparr>ClientID := clientId, SASL_User := username, SASL_Password := password\<rparr>"

text \<open>Modelled from the spec: \<^verbatim>\<open>kafkasarama.ConfigEqual\<close> with the \<^verbatim>\<open>Producer\<close> section
  as the part to ignore, which is not among the sources. The spec: "compare the merged
  configuration to the current snapshot, ignoring any settings that only affect
  delivery/production semantics".\<close>

definition ConfigEqual :: "Config \<Rightarrow> Config \<Rightarrow> bool" where
  "ConfigEqual a b \<longleftrightarrow>
     ClientID a = ClientID b \<and> SASL_User a = SASL_User b \<and>
     SASL_Password a = SASL_Password b \<and> Consumer a = Consumer b"

text \<open>\<^verbatim>\<open>ConfigChanged\<close>. The result is the returned dispatcher (\<open>None\<close> for nil), the
  receiver \<^verbatim>\<open>d\<close> after the call, and the world.\<close>

definition ConfigChanged ::
  "env \<Rightarrow> DispatcherImpl \<Rightarrow> world \<Rightarrow> ConfigMap \<Rightarrow>
   abort + DispatcherImpl option \<times> DispatcherImpl \<times> world" where
  "ConfigChanged e d w configMap =
     (case MergeSaramaSettings e configMap of
        Inl err \<Rightarrow> Inr (None, d, w)
      | Inr merged \<Rightarrow>
          (let newConfig =
                 (case SaramaConfig (DispatcherConfig d) of
                    None \<Rightarrow> merged
                  | Some cur \<Rightarrow>
                      UpdateSaramaConfig merged (ClientID cur) (SASL_User cur) (SASL_Password cur))
           in if (case SaramaConfig (DispatcherConfig d) of
                    None \<Rightarrow> False
                  | Some cur \<Rightarrow> ConfigEqual newConfig cur)
              then Inr (None, d, w)
              else
                (case Shutdown e d w of
                   Inl a \<Rightarrow> Inl a
                 | Inr (d1, w1) \<Rightarrow>
                     (let d2 = d1\<lparr>DispatcherConfig :=
                                   (DispatcherConfig d1)\<lparr>SaramaConfig := Some newConfig\<rparr>\<rparr>;
                          newDispatcher = NewDispatcher (DispatcherConfig d2)
                      in case UpdateSubscriptions e newDispatcher w1
                                (SubscriberSpecs (DispatcherConfig d2)) of
                           Inl a \<Rightarrow> Inl a
                         | Inr (failedSubscriptions, nd, w2) \<Rightarrow>
                             if map_len failedSubscriptions > 0
                             then Inl (Fatal (map_len failedSubscriptions))
                             else Inr (Some nd, d2, w2)))))"

subsection \<open>Invariants and closed forms\<close>

text \<open>The three values of a configuration that \<^verbatim>\<open>ConfigChanged\<close> takes from the current
  snapshot.\<close>

definition credentials :: "Config \<Rightarrow> string \<times> string \<times> string" where
  "credentials c = (ClientID c, SASL_User c, SASL_Password c)"

text \<open>The subscriber that the first loop of \<^verbatim>\<open>UpdateSubscriptions\<close> builds for a spec when
  the next free identifier is \<open>n\<close>.\<close>

definition new_wrapper :: "SubscriberSpec \<Rightarrow> nat \<Rightarrow> SubscriberWrapper" where
  "new_wrapper s n = \<lparr>SubscriberSpec = s, GroupId = groupId_of (UID s),
                      ConsumerGroup = Some n, StopChan = Suc n\<rparr>"

text \<open>A spec for which the first loop records a failure: it is not registered and the
  factory fails for its group.\<close>

definition failing :: "env \<Rightarrow> Config \<Rightarrow> DispatcherImpl \<Rightarrow> SubscriberSpec \<Rightarrow> bool" where
  "failing e sc d s \<longleftrightarrow>
     map_of (subscribers d) (UID s) = None \<and>
     CreateConsumerGroup e (Brokers (DispatcherConfig d)) sc (groupId_of (UID s)) \<noteq> None"

text \<open>The error that the factory returns for the group of a spec.\<close>

definition failure_of :: "env \<Rightarrow> Config \<Rightarrow> DispatcherImpl \<Rightarrow> SubscriberSpec \<Rightarrow> string" where
  "failure_of e sc d s =
     (case CreateConsumerGroup e (Brokers (DispatcherConfig d)) sc (groupId_of (UID s)) of
        Some err \<Rightarrow> err | None \<Rightarrow> [])"

text \<open>A subscriber that \<^verbatim>\<open>closeConsumerGroup\<close> deletes from the registry: its consumer
  group is nil or closes without an error.\<close>

definition removable :: "env \<Rightarrow> SubscriberWrapper \<Rightarrow> bool" where
  "removable e s \<longleftrightarrow> (case ConsumerGroup s of None \<Rightarrow> True | Some h \<Rightarrow> Close e h = None)"

text \<open>The events of one \<^verbatim>\<open>closeConsumerGroup\<close> that does not panic.\<close>

definition teardown_events :: "env \<Rightarrow> bool \<Rightarrow> SubscriberWrapper \<Rightarrow> event list" where
  "teardown_events e held s =
     (case ConsumerGroup s of
        None \<Rightarrow> [Deregistered (UID (SubscriberSpec s)) held]
      | Some h \<Rightarrow>
          StopSignalled (StopChan s) #
          (case Close e h of
             Some err \<Rightarrow> [GroupCloseFailed h err]
           | None \<Rightarrow> [GroupClosed h, Deregistered (UID (SubscriberSpec s)) held]))"

text \<open>The events of the first loop, with the state of the mutex at a registration.\<close>

fun creation_event :: "bool \<Rightarrow> event \<Rightarrow> bool" where
  "creation_event held (GroupCreated g h) = True"
| "creation_event held (GroupCreateFailed g err) = True"
| "creation_event held (ConsumingStarted u h) = True"
| "creation_event held (Registered u b) = (b = held)"
| "creation_event held ev = False"

text \<open>The events of a teardown, with the state of the mutex at a deletion.\<close>

fun teardown_event :: "bool \<Rightarrow> event \<Rightarrow> bool" where
  "teardown_event held (StopSignalled c) = True"
| "teardown_event held (GroupClosed h) = True"
| "teardown_event held (GroupCloseFailed h err) = True"
| "teardown_event held (Deregistered u b) = (b = held)"
| "teardown_event held ev = False"

text \<open>An event that is not a mutation of the registry, or is one made with the mutex in
  the given state.\<close>

fun mutation_under :: "bool \<Rightarrow> event \<Rightarrow> bool" where
  "mutation_under held (Registered u b) = (b = held)"
| "mutation_under held (Deregistered u b) = (b = held)"
| "mutation_under held ev = True"

text \<open>The association list is a Go map (no key twice) built by \<^verbatim>\<open>UpdateSubscriptions\<close>:
  every subscriber is stored under its own UID, and no two subscribers share a stop
  channel.\<close>

definition registry_ok :: "DispatcherImpl \<Rightarrow> bool" where
  "registry_ok d \<longleftrightarrow>
     distinct (map fst (subscribers d)) \<and>
     (\<forall>(k, s) \<in> set (subscribers d). UID (SubscriberSpec s) = k) \<and>
     distinct (map (\<lambda>(k, s). StopChan s) (subscribers d))"

text \<open>A well-formed state: the registry is as above and its stop channels have been
  allocated, so that the next allocation is a new channel.\<close>

definition wf :: "DispatcherImpl \<Rightarrow> world \<Rightarrow> bool" where
  "wf d w \<longleftrightarrow> registry_ok d \<and> (\<forall>(k, s) \<in> set (subscribers d). StopChan s < next_id w)"

text \<open>No subscriber of the registry has had its stop channel closed.\<close>

definition live :: "DispatcherImpl \<Rightarrow> world \<Rightarrow> bool" where
  "live d w \<longleftrightarrow> (\<forall>(k, s) \<in> set (subscribers d). StopChan s \<notin> set (closed_chans w))"

text \<open>A \<^verbatim>\<open>range\<close> visits every key of the map once, in some order.\<close>

definition range_ok :: "env \<Rightarrow> bool" where
  "range_ok e \<longleftrightarrow>
     (\<forall>ks. distinct ks \<longrightarrow> distinct (range_order e ks) \<and> set (range_order e ks) = set ks)"

text \<open>The state after the second loop of \<^verbatim>\<open>UpdateSubscriptions\<close> has visited the keys
  \<open>ks\<close>, when no visit panics.\<close>

definition swept ::
  "env \<Rightarrow> string list \<Rightarrow> string list \<Rightarrow> DispatcherImpl \<Rightarrow> world \<Rightarrow> DispatcherImpl \<times> world" where
  "swept e active ks d w =
     (d\<lparr>subscribers :=
          filter (\<lambda>(k, s). \<not> (k \<in> set ks \<and> k \<notin> set active \<and> removable e s)) (subscribers d),
        DispatcherConfig := (DispatcherConfig d)\<lparr>SubscriberSpecs :=
          SubscriberSpecs (DispatcherConfig d) @
          map SubscriberSpec
            (filter (\<lambda>s. UID (SubscriberSpec s) \<in> set active)
               (List.map_filter (map_of (subscribers d)) ks))\<rparr>\<rparr>,
      w\<lparr>closed_chans :=
          rev (map StopChan
                 (filter (\<lambda>s. UID (SubscriberSpec s) \<notin> set active \<and> ConsumerGroup s \<noteq> None)
                    (List.map_filter (map_of (subscribers d)) ks))) @ closed_chans w,
        events := events w @
          concat (map (teardown_events e (consumerUpdateLock d))
                    (filter (\<lambda>s. UID (SubscriberSpec s) \<notin> set active)
                       (List.map_filter (map_of (subscribers d)) ks)))\<rparr>)"

text \<open>The returned map and the keys of the registry after a call of
  \<^verbatim>\<open>UpdateSubscriptions\<close>, for stating what a call on a concrete input gives.\<close>

definition returned_map ::
  "abort + (SubscriberSpec \<times> string) list option \<times> DispatcherImpl \<times> world \<Rightarrow>
   (SubscriberSpec \<times> string) list option" where
  "returned_map r = (case r of Inl a \<Rightarrow> None | Inr (m, d, w) \<Rightarrow> m)"

definition registry_after :: "abort + 'a \<times> DispatcherImpl \<times> world \<Rightarrow> string list" where
  "registry_after r = (case r of Inl a \<Rightarrow> [] | Inr (m, d, w) \<Rightarrow> map fst (subscribers d))"

subsection \<open>Concrete inputs\<close>

text \<open>A dispatcher configuration without and with a Sarama configuration, subscriber
  specs, an empty world, and collaborators that never fail and range in the order of
  insertion. The example of \<^verbatim>\<open>MergeSaramaSettings\<close> reads the consumer and the producer
  setting of the overlay.\<close>

definition sarama0 :: Config where
  "sarama0 = \<lparr>ClientID = ''c1'', SASL_User = ''u1'', SASL_Password = ''p1'',
              Producer = [(''acks'', ''1'')], Consumer = [(''offsets'', ''old'')]\<rparr>"

definition config_nil :: DispatcherConfig where
  "config_nil = \<lparr>ClientId = ''c1'', Brokers = [''b:9092''], Topic = ''t'', Username = ''u1'',
                 Password = ''p1'', ChannelKey = ''ns/ch'', SaramaConfig = None,
                 SubscriberSpecs = []\<rparr>"

definition config0 :: DispatcherConfig where
  "config0 = config_nil\<lparr>SaramaConfig := Some sarama0\<rparr>"

definition spec_of :: "string \<Rightarrow> SubscriberSpec" where
  "spec_of u = \<lparr>UID = u, Generation = 1, SubscriberURI = Some (''http://'' @ u),
               ReplyURI = None, Delivery = None\<rparr>"

definition world0 :: world where
  "world0 = \<lparr>next_id = 0, closed_chans = [], events = []\<rparr>"

definition merge_example :: "ConfigMap \<Rightarrow> string + Config" where
  "merge_example cm =
     (case map_of (Data cm) ''consumer'' of
        None \<Rightarrow> Inl ''no consumer section''
      | Some c \<Rightarrow>
          Inr \<lparr>ClientID = ''overlay'', SASL_User = ''ou'', SASL_Password = ''op'',
               Producer = [(''acks'', case map_of (Data cm) ''producer'' of
                                         None \<Rightarrow> ''1'' | Some p \<Rightarrow> p)],
               Consumer = [(''offsets'', c)]\<rparr>)"

definition env0 :: env where
  "env0 = \<lparr>CreateConsumerGroup = (\<lambda>brokers config groupId. None), Close = (\<lambda>h. None),
           range_order = (\<lambda>ks. ks), MergeSaramaSettings = merge_example\<rparr>"

text \<open>The subscriber that \<^verbatim>\<open>UpdateSubscriptions\<close> builds for the spec of the UID \<open>u\<close>
  when the next free identifier is \<open>h\<close>: the consumer group is \<open>h\<close>, the stop channel the
  identifier after it.\<close>

definition wrapper_of :: "string \<Rightarrow> nat \<Rightarrow> SubscriberWrapper" where
  "wrapper_of u h = \<lparr>SubscriberSpec = spec_of u, GroupId = ''kafka.'' @ u,
                     ConsumerGroup = Some h, StopChan = Suc h\<rparr>"

text \<open>The state of a new dispatcher after \<^verbatim>\<open>UpdateSubscriptions\<close> with the one
  subscriber \<open>A\<close>.\<close>

definition dispatcher_A :: DispatcherImpl where
  "dispatcher_A = \<lparr>DispatcherConfig = config0\<lparr>SubscriberSpecs := [spec_of ''A'']\<rparr>,
                   subscribers = [(''A'', wrapper_of ''A'' 0)], consumerUpdateLock = False\<rparr>"

definition world_A :: world where
  "world_A = \<lparr>next_id = 2, closed_chans = [],
              events = [GroupCreated ''kafka.A'' 0, ConsumingStarted ''A'' 0,
                        Registered ''A'' True]\<rparr>"

text \<open>Two overlays: one changes a producer setting only, one a consumer setting.\<close>

definition cm_producer :: ConfigMap where
  "cm_producer = \<lparr>Name = ''config-kafka'',
                  Data = [(''consumer'', ''old''), (''producer'', ''all'')]\<rparr>"

definition cm_consumer :: ConfigMap where
  "cm_consumer = \<lparr>Name = ''config-kafka'', Data = [(''consumer'', ''new'')]\<rparr>"

text \<open>Collaborators whose factory fails under the configuration with the new consumer
  setting.\<close>

definition env_fail_new :: env where
  "env_fail_new = env0\<lparr>CreateConsumerGroup :=
     (\<lambda>brokers config groupId.
        if Consumer config = [(''offsets'', ''new'')] then Some ''broker unreachable'' else None)\<rparr>"

text \<open>Collaborators for which closing the consumer group with the handle 0 fails.\<close>

definition env_close_fails :: env where
  "env_close_fails = env0\<lparr>Close := (\<lambda>h. if h = 0 then Some ''close failed'' else None)\<rparr>"

text \<open>Collaborators whose factory fails for the group of \<open>B\<close> and whose \<^verbatim>\<open>Close()\<close> fails
  for the consumer group with the handle 0.\<close>

definition env_B_fails :: env where
  "env_B_fails = env0\<lparr>
     CreateConsumerGroup :=
       (\<lambda>brokers config groupId. if groupId = ''kafka.B'' then Some ''no broker'' else None),
     Close := (\<lambda>h. if h = 0 then Some ''close failed'' else None)\<rparr>"



text \<open>The state after \<^verbatim>\<open>UpdateSubscriptions\<close> with \<open>B\<close> alone on \<^const>\<open>dispatcher_A\<close>, when the
  consumer group of \<open>A\<close> fails to close: \<open>A\<close> is still registered and its stop channel
  is closed.\<close>

definition dispatcher_retained :: DispatcherImpl where
  "dispatcher_retained =
     \<lparr>DispatcherConfig = config0\<lparr>SubscriberSpecs := [spec_of ''B'']\<rparr>,
      subscribers = [(''A'', wrapper_of ''A'' 0), (''B'', wrapper_of ''B'' 2)],
      consumerUpdateLock = False\<rparr>"

definition world_retained :: world where
  "world_retained =
     \<lparr>next_id = 4, closed_chans = [1],
      events = [GroupCreated ''kafka.A'' 0, ConsumingStarted ''A'' 0, Registered ''A'' True,
                GroupCreated ''kafka.B'' 2, ConsumingStarted ''B'' 2, Registered ''B'' True,
                StopSignalled 1, GroupCloseFailed 0 ''close failed'']\<rparr>"

text \<open>The events after a call, for stating what a call on a concrete input gives.\<close>

definition events_after :: "abort + 'a \<times> DispatcherImpl \<times> world \<Rightarrow> event list" where
  "events_after r = (case r of Inl a \<Rightarrow> [] | Inr (x, d, w) \<Rightarrow> events w)"

text \<open>The world after \<^verbatim>\<open>Shutdown\<close> on \<^const>\<open>dispatcher_A\<close> when the consumer group of \<open>A\<close>
  fails to close: the stop channel of \<open>A\<close> is closed and \<open>A\<close> is still registered.\<close>

definition world_A_close_failed :: world where
  "world_A_close_failed =
     \<lparr>next_id = 2, closed_chans = [1],
      events = [GroupCreated ''kafka.A'' 0, ConsumingStarted ''A'' 0, Registered ''A'' True,
                StopSignalled 1, GroupCloseFailed 0 ''close failed'']\<rparr>"

section \<open>Properties\<close>

lemmas example_defs = env0_def merge_example_def dispatcher_A_def world_A_def cm_producer_def
  cm_consumer_def config0_def config_nil_def sarama0_def spec_of_def wrapper_of_def world0_def
  NewDispatcher_def

lemmas op_defs = UpdateSubscriptions_def ConfigChanged_def Shutdown_def closeConsumerGroup_def
  subscribe_def NewSubscriberWrapper_def startConsuming_def emit_def groupId_of_def
  UpdateSaramaConfig_def ConfigEqual_def map_len_def Let_def

subsection \<open>A dispatcher without a Sarama configuration\<close>

text \<open>
  Claim C10. When \<^verbatim>\<open>d.SaramaConfig\<close> is nil, \<^verbatim>\<open>UpdateSubscriptions\<close> returns the nil map
  for every list of subscriber specs; the dispatcher (registry and retained
  \<^verbatim>\<open>SubscriberSpecs\<close> included) and the world (no consumer group created, no stop channel
  or consumer group closed) are as before the call. \<^verbatim>\<open>len\<close> and indexing give on the nil
  map what they give on the empty map of a full success.
\<close>

theorem UpdateSubscriptions_nil_config:
  assumes "SaramaConfig (DispatcherConfig d) = None"
  shows "UpdateSubscriptions e d w subscriberSpecs = Inr (None, d, w)
         \<and> map_len (None :: (SubscriberSpec \<times> string) list option) = map_len (Some ([] :: (SubscriberSpec \<times> string) list))
         \<and> (\<forall>k. map_index (None :: (SubscriberSpec \<times> string) list option) k = map_index (Some []) k)"
  using assms by (simp add: UpdateSubscriptions_def map_len_def map_index_def)

theorem UpdateSubscriptions_nil_config_witness:
  "SaramaConfig (DispatcherConfig (NewDispatcher config_nil)) = None
   \<and> UpdateSubscriptions env0 (NewDispatcher config_nil) world0 [spec_of ''A'', spec_of ''B'']
       = Inr (None, NewDispatcher config_nil, world0)"
  using UpdateSubscriptions_nil_config [of "NewDispatcher config_nil" env0 world0
      "[spec_of ''A'', spec_of ''B'']"]
  by (simp add: NewDispatcher_def config_nil_def)

subsection \<open>What the operations leave alone\<close>

lemma closeConsumerGroup_frame:
  assumes "closeConsumerGroup e d w s = Inr (d', w')"
  shows "DispatcherConfig d' = DispatcherConfig d \<and> consumerUpdateLock d' = consumerUpdateLock d
         \<and> next_id w' = next_id w"
  using assms
  by (auto simp: closeConsumerGroup_def emit_def Let_def split: option.splits if_splits)

lemma closeConsumerGroup_not_Fatal: "closeConsumerGroup e d w s \<noteq> Inl (Fatal n)"
  by (simp add: closeConsumerGroup_def Let_def split: option.splits)

lemma Shutdown_range_not_Fatal: "Shutdown_range e ks d w \<noteq> Inl (Fatal n)"
  by (induction ks arbitrary: d w)
     (auto simp: closeConsumerGroup_not_Fatal split: option.splits sum.splits)

lemma UpdateSubscriptions_range_not_Fatal:
  "UpdateSubscriptions_range e active ks d w \<noteq> Inl (Fatal n)"
  by (induction ks arbitrary: d w)
     (auto simp: closeConsumerGroup_not_Fatal split: option.splits sum.splits)

lemma subscribe_frame:
  "subscribe e sc s d w active failed = (d', w', active', failed') \<Longrightarrow>
   DispatcherConfig d' = DispatcherConfig d \<and> consumerUpdateLock d' = consumerUpdateLock d
   \<and> closed_chans w' = closed_chans w \<and> next_id w \<le> next_id w'"
  by (auto simp: subscribe_def Let_def emit_def NewSubscriberWrapper_def startConsuming_def
           split: option.splits)

lemma UpdateSubscriptions_specs_frame:
  "UpdateSubscriptions_specs e sc ss d w active failed = (d', w', active', failed') \<Longrightarrow>
   DispatcherConfig d' = DispatcherConfig d \<and> consumerUpdateLock d' = consumerUpdateLock d
   \<and> closed_chans w' = closed_chans w \<and> next_id w \<le> next_id w'"
proof (induction ss arbitrary: d w active failed)
  case Nil
  then show ?case by simp
next
  case (Cons s ss)
  obtain d1 w1 a1 f1 where b: "subscribe e sc s d w active failed = (d1, w1, a1, f1)"
    by (metis prod_cases4)
  with Cons.prems have "UpdateSubscriptions_specs e sc ss d1 w1 a1 f1 = (d', w', active', failed')"
    by simp
  from Cons.IH [OF this] subscribe_frame [OF b] show ?case by simp
qed

lemma UpdateSubscriptions_range_frame:
  "UpdateSubscriptions_range e active ks d w = Inr (d', w') \<Longrightarrow>
   (\<exists>xs. DispatcherConfig d' = (DispatcherConfig d)\<lparr>SubscriberSpecs := xs\<rparr>)
   \<and> consumerUpdateLock d' = consumerUpdateLock d \<and> next_id w' = next_id w"
proof (induction ks arbitrary: d w)
  case Nil
  have "DispatcherConfig d = (DispatcherConfig d)\<lparr>SubscriberSpecs := SubscriberSpecs (DispatcherConfig d)\<rparr>"
    by simp
  with Nil show ?case by (metis Inr_inject Pair_inject UpdateSubscriptions_range.simps(1))
next
  case (Cons k ks)
  show ?case
  proof (cases "map_of (subscribers d) k")
    case None
    with Cons show ?thesis by simp
  next
    case (Some s)
    show ?thesis
    proof (cases "UID (SubscriberSpec s) \<in> set active")
      case True
      with Some Cons.prems have
        "UpdateSubscriptions_range e active ks
           (d\<lparr>DispatcherConfig := (DispatcherConfig d)
                \<lparr>SubscriberSpecs := SubscriberSpecs (DispatcherConfig d) @ [SubscriberSpec s]\<rparr>\<rparr>) w
         = Inr (d', w')" by simp
      from Cons.IH [OF this] show ?thesis by auto
    next
      case False
      with Some Cons.prems obtain d1 w1 where c: "closeConsumerGroup e d w s = Inr (d1, w1)"
        and r: "UpdateSubscriptions_range e active ks d1 w1 = Inr (d', w')"
        by (auto split: sum.splits)
      from Cons.IH [OF r] closeConsumerGroup_frame [OF c] show ?thesis by simp
    qed
  qed
qed

lemma UpdateSubscriptions_not_Fatal: "UpdateSubscriptions e d w ss \<noteq> Inl (Fatal n)"
  by (auto simp: UpdateSubscriptions_def Let_def UpdateSubscriptions_range_not_Fatal
           split: option.splits prod.splits sum.splits)

text \<open>The parts of a call of \<^verbatim>\<open>UpdateSubscriptions\<close> on a dispatcher with a
  configuration that returns.\<close>

lemma UpdateSubscriptions_parts:
  assumes "UpdateSubscriptions e d w ss = Inr (r, d', w')"
      and "SaramaConfig (DispatcherConfig d) = Some sc"
  obtains d1 w1 active failed d3 where
    "UpdateSubscriptions_specs e sc ss (d\<lparr>consumerUpdateLock := True\<rparr>) w [] []
       = (d1, w1, active, failed)"
    "UpdateSubscriptions_range e active (range_order e (map fst (subscribers d1)))
       (d1\<lparr>DispatcherConfig := (DispatcherConfig d1)\<lparr>SubscriberSpecs := []\<rparr>\<rparr>) w1 = Inr (d3, w')"
    "d' = d3\<lparr>consumerUpdateLock := False\<rparr>" "r = Some failed"
proof -
  obtain d1 w1 active failed where
    l1: "UpdateSubscriptions_specs e sc ss (d\<lparr>consumerUpdateLock := True\<rparr>) w [] [] = (d1, w1, active, failed)"
    by (metis prod_cases4)
  with assms that show thesis
    by (auto simp: UpdateSubscriptions_def Let_def split: sum.splits)
qed

lemma UpdateSubscriptions_frame:
  assumes "UpdateSubscriptions e d w ss = Inr (r, d', w')"
  shows "\<exists>xs. DispatcherConfig d' = (DispatcherConfig d)\<lparr>SubscriberSpecs := xs\<rparr>"
proof (cases "SaramaConfig (DispatcherConfig d)")
  case None
  with assms have "d' = d" by (simp add: UpdateSubscriptions_def)
  moreover have "DispatcherConfig d = (DispatcherConfig d)\<lparr>SubscriberSpecs := SubscriberSpecs (DispatcherConfig d)\<rparr>"
    by simp
  ultimately show ?thesis by metis
next
  case (Some sc)
  from assms Some obtain d1 w1 active failed d3 where
    l1: "UpdateSubscriptions_specs e sc ss (d\<lparr>consumerUpdateLock := True\<rparr>) w [] []
       = (d1, w1, active, failed)"
    and l2: "UpdateSubscriptions_range e active (range_order e (map fst (subscribers d1)))
       (d1\<lparr>DispatcherConfig := (DispatcherConfig d1)\<lparr>SubscriberSpecs := []\<rparr>\<rparr>) w1 = Inr (d3, w')"
    and d': "d' = d3\<lparr>consumerUpdateLock := False\<rparr>"
    by (rule UpdateSubscriptions_parts)
  from UpdateSubscriptions_specs_frame [OF l1] have "DispatcherConfig d1 = DispatcherConfig d" by simp
  with UpdateSubscriptions_range_frame [OF l2] d' show ?thesis by auto
qed

lemma dispatcher_A_reached:
  "UpdateSubscriptions env0 (NewDispatcher config0) world0 [spec_of ''A'']
     = Inr (Some [], dispatcher_A, world_A)"
  by (simp add: example_defs op_defs)

subsection \<open>Configuration changes\<close>

text \<open>
  Claim C4. On a dispatcher with a current configuration, when the merged overlay has
  the consumer settings of the current snapshot (whatever its producer settings are),
  \<^verbatim>\<open>ConfigChanged\<close> returns nil and the dispatcher and the world are as before the call:
  the registry holds the same subscribers with the same consumer-group handles and stop
  channels, and no event (no close, no creation) has happened.
\<close>

theorem ConfigChanged_no_consumer_change:
  assumes "SaramaConfig (DispatcherConfig d) = Some cur"
      and "MergeSaramaSettings e configMap = Inr merged"
      and "Consumer merged = Consumer cur"
  shows "ConfigChanged e d w configMap = Inr (None, d, w)"
  using assms by (simp add: ConfigChanged_def UpdateSaramaConfig_def ConfigEqual_def)

theorem ConfigChanged_no_consumer_change_witness:
  "SaramaConfig (DispatcherConfig dispatcher_A) = Some sarama0
   \<and> MergeSaramaSettings env0 cm_producer
       = Inr \<lparr>ClientID = ''overlay'', SASL_User = ''ou'', SASL_Password = ''op'',
              Producer = [(''acks'', ''all'')], Consumer = [(''offsets'', ''old'')]\<rparr>
   \<and> Producer sarama0 \<noteq> [(''acks'', ''all'')]
   \<and> ConfigChanged env0 dispatcher_A world_A cm_producer = Inr (None, dispatcher_A, world_A)"
proof -
  have h1: "SaramaConfig (DispatcherConfig dispatcher_A) = Some sarama0"
    by (simp add: example_defs)
  have h2: "MergeSaramaSettings env0 cm_producer
       = Inr \<lparr>ClientID = ''overlay'', SASL_User = ''ou'', SASL_Password = ''op'',
              Producer = [(''acks'', ''all'')], Consumer = [(''offsets'', ''old'')]\<rparr>"
    by (simp add: example_defs)
  have h3: "Consumer \<lparr>ClientID = ''overlay'', SASL_User = ''ou'', SASL_Password = ''op'',
              Producer = [(''acks'', ''all'')], Consumer = [(''offsets'', ''old'')]\<rparr> = Consumer sarama0"
    by (simp add: sarama0_def)
  from ConfigChanged_no_consumer_change [OF h1 h2 h3, of world_A] h1 h2 show ?thesis
    by (simp add: sarama0_def)
qed

lemma ConfigChanged_credentials:
  assumes "SaramaConfig (DispatcherConfig d) = Some cur"
      and "ConfigChanged e d w configMap = Inr (r, d', w')"
  shows "(\<exists>c. SaramaConfig (DispatcherConfig d') = Some c \<and> credentials c = credentials cur)
       \<and> (\<forall>nd. r = Some nd \<longrightarrow>
             (\<exists>c. SaramaConfig (DispatcherConfig nd) = Some c \<and> credentials c = credentials cur))"
proof (cases "MergeSaramaSettings e configMap")
  case (Inl err)
  with assms show ?thesis by (simp add: ConfigChanged_def)
next
  case (Inr merged)
  let ?nc = "UpdateSaramaConfig merged (ClientID cur) (SASL_User cur) (SASL_Password cur)"
  have nc: "credentials ?nc = credentials cur"
    by (simp add: credentials_def UpdateSaramaConfig_def)
  show ?thesis
  proof (cases "ConfigEqual ?nc cur")
    case True
    with assms Inr show ?thesis by (simp add: ConfigChanged_def)
  next
    case False
    with assms Inr obtain d1 w1 where sh: "Shutdown e d w = Inr (d1, w1)"
      by (auto simp: ConfigChanged_def Let_def split: sum.splits)
    let ?d2 = "d1\<lparr>DispatcherConfig := (DispatcherConfig d1)\<lparr>SaramaConfig := Some ?nc\<rparr>\<rparr>"
    from assms Inr False sh obtain f nd w2 where
      up: "UpdateSubscriptions e (NewDispatcher (DispatcherConfig ?d2)) w1
             (SubscriberSpecs (DispatcherConfig ?d2)) = Inr (f, nd, w2)"
      and res: "r = Some nd" "d' = ?d2"
      by (auto simp: ConfigChanged_def Let_def split: sum.splits if_splits)
    from UpdateSubscriptions_frame [OF up] obtain xs where
      "DispatcherConfig nd = (DispatcherConfig (NewDispatcher (DispatcherConfig ?d2)))\<lparr>SubscriberSpecs := xs\<rparr>"
      by blast
    then have "SaramaConfig (DispatcherConfig nd) = Some ?nc"
      by (simp add: NewDispatcher_def)
    with res nc show ?thesis by simp
  qed
qed

text \<open>
  Claim C5. Whatever the overlay, the configuration in effect after \<^verbatim>\<open>ConfigChanged\<close>
  on a dispatcher with a current snapshot (that of the returned dispatcher, or that of
  the receiver when nil is returned) has the client identifier, SASL user and SASL
  password of the prior snapshot; so two runs from the same state with any two overlays
  end with the same three values. This rests on \<^const>\<open>UpdateSaramaConfig\<close> as the spec
  describes it.
\<close>

theorem ConfigChanged_keeps_credentials:
  assumes "SaramaConfig (DispatcherConfig d) = Some cur"
      and "ConfigChanged e d w overlay1 = Inr (r1, d1, w1)"
      and "ConfigChanged e d w overlay2 = Inr (r2, d2, w2)"
  shows "\<exists>c1 c2.
           SaramaConfig (DispatcherConfig (case r1 of None \<Rightarrow> d1 | Some nd \<Rightarrow> nd)) = Some c1 \<and>
           SaramaConfig (DispatcherConfig (case r2 of None \<Rightarrow> d2 | Some nd \<Rightarrow> nd)) = Some c2 \<and>
           credentials c1 = credentials cur \<and> credentials c2 = credentials cur"
  using ConfigChanged_credentials [OF assms(1,2)] ConfigChanged_credentials [OF assms(1,3)]
  by (cases r1; cases r2) auto

theorem ConfigChanged_keeps_credentials_witness:
  "SaramaConfig (DispatcherConfig dispatcher_A) = Some sarama0
   \<and> (\<exists>nd d1 w1. ConfigChanged env0 dispatcher_A world_A cm_consumer = Inr (Some nd, d1, w1)
        \<and> (\<exists>c. SaramaConfig (DispatcherConfig nd) = Some c
               \<and> credentials c = (''c1'', ''u1'', ''p1'') \<and> Consumer c = [(''offsets'', ''new'')]))
   \<and> ConfigChanged env0 dispatcher_A world_A cm_producer = Inr (None, dispatcher_A, world_A)"
proof -
  have h: "SaramaConfig (DispatcherConfig dispatcher_A) = Some sarama0"
    by (simp add: example_defs)
  have "\<exists>nd d1 w1. ConfigChanged env0 dispatcher_A world_A cm_consumer = Inr (Some nd, d1, w1)
          \<and> (\<exists>c. SaramaConfig (DispatcherConfig nd) = Some c \<and> Consumer c = [(''offsets'', ''new'')])"
    by (simp add: example_defs op_defs)
  then obtain nd d1 w1 c where run: "ConfigChanged env0 dispatcher_A world_A cm_consumer = Inr (Some nd, d1, w1)"
    and c: "SaramaConfig (DispatcherConfig nd) = Some c" "Consumer c = [(''offsets'', ''new'')]"
    by blast
  have run2: "ConfigChanged env0 dispatcher_A world_A cm_producer = Inr (None, dispatcher_A, world_A)"
    by (simp add: example_defs op_defs)
  from ConfigChanged_keeps_credentials [OF h run run2] c have "credentials c = credentials sarama0"
    by auto
  then have "credentials c = (''c1'', ''u1'', ''p1'')" by (simp add: credentials_def sarama0_def)
  with h run run2 c show ?thesis by blast
qed

lemma ConfigChanged_Fatal_only:
  assumes "ConfigChanged e d w configMap = Inl (Fatal n)"
  shows "0 < n"
  using assms
  by (auto simp: ConfigChanged_def Let_def Shutdown_def Shutdown_range_not_Fatal
        UpdateSubscriptions_not_Fatal split: sum.splits option.splits if_splits)

text \<open>
  The escalation. In a rebuild (the overlay merges, the consumer settings differ or there
  is no current snapshot, and \<^verbatim>\<open>Shutdown\<close> has returned), whenever \<^verbatim>\<open>UpdateSubscriptions\<close>
  on the new dispatcher returns a map that is not empty, \<^verbatim>\<open>ConfigChanged\<close> ends in
  \<^verbatim>\<open>Logger.Fatal\<close> with the number of failures, whatever that number is; it does not
  return the failures. No other operation ends in \<^verbatim>\<open>Logger.Fatal\<close>, and \<^verbatim>\<open>ConfigChanged\<close>
  does so only with a positive number of failures.
\<close>

theorem ConfigChanged_fatal:
  assumes "MergeSaramaSettings e configMap = Inr merged"
      and "newConfig = (case SaramaConfig (DispatcherConfig d) of
                          None \<Rightarrow> merged
                        | Some cur \<Rightarrow> UpdateSaramaConfig merged (ClientID cur) (SASL_User cur)
                                       (SASL_Password cur))"
      and "\<forall>cur. SaramaConfig (DispatcherConfig d) = Some cur \<longrightarrow> \<not> ConfigEqual newConfig cur"
      and "Shutdown e d w = Inr (d1, w1)"
      and "UpdateSubscriptions e
             (NewDispatcher ((DispatcherConfig d1)\<lparr>SaramaConfig := Some newConfig\<rparr>)) w1
             (SubscriberSpecs (DispatcherConfig d1)) = Inr (failed, nd, w2)"
      and "0 < map_len failed"
  shows "ConfigChanged e d w configMap = Inl (Fatal (map_len failed))
       \<and> (\<forall>e' d' w' ss n. UpdateSubscriptions e' d' w' ss \<noteq> Inl (Fatal n))
       \<and> (\<forall>e' d' w' n. Shutdown e' d' w' \<noteq> Inl (Fatal n))
       \<and> (\<forall>e' d' w' s n. closeConsumerGroup e' d' w' s \<noteq> Inl (Fatal n))
       \<and> (\<forall>e' d' w' cm n. ConfigChanged e' d' w' cm = Inl (Fatal n) \<longrightarrow> 0 < n)"
proof -
  have "ConfigChanged e d w configMap = Inl (Fatal (map_len failed))"
    using assms by (auto simp: ConfigChanged_def Let_def split: option.splits)
  then show ?thesis
    using ConfigChanged_Fatal_only
    by (simp add: UpdateSubscriptions_not_Fatal Shutdown_def Shutdown_range_not_Fatal
          closeConsumerGroup_not_Fatal)
qed

theorem ConfigChanged_fatal_witness:
  "MergeSaramaSettings env_fail_new cm_consumer
     = Inr \<lparr>ClientID = ''overlay'', SASL_User = ''ou'', SASL_Password = ''op'',
            Producer = [(''acks'', ''1'')], Consumer = [(''offsets'', ''new'')]\<rparr>
   \<and> ConfigChanged env_fail_new dispatcher_A world_A cm_consumer = Inl (Fatal 1)"
proof -
  let ?merged = "\<lparr>ClientID = ''overlay'', SASL_User = ''ou'', SASL_Password = ''op'',
            Producer = [(''acks'', ''1'')], Consumer = [(''offsets'', ''new'')]\<rparr>"
  let ?nc = "\<lparr>ClientID = ''c1'', SASL_User = ''u1'', SASL_Password = ''p1'',
            Producer = [(''acks'', ''1'')], Consumer = [(''offsets'', ''new'')]\<rparr>"
  have h1: "MergeSaramaSettings env_fail_new cm_consumer = Inr ?merged"
    by (simp add: env_fail_new_def example_defs)
  have h2: "?nc = (case SaramaConfig (DispatcherConfig dispatcher_A) of
                          None \<Rightarrow> ?merged
                        | Some cur \<Rightarrow> UpdateSaramaConfig ?merged (ClientID cur) (SASL_User cur)
                                       (SASL_Password cur))"
    by (simp add: example_defs UpdateSaramaConfig_def)
  have h3: "\<forall>cur. SaramaConfig (DispatcherConfig dispatcher_A) = Some cur \<longrightarrow> \<not> ConfigEqual ?nc cur"
    by (simp add: example_defs ConfigEqual_def)
  have "\<exists>d1 w1. Shutdown env_fail_new dispatcher_A world_A = Inr (d1, w1) \<and>
          (\<exists>failed nd w2. UpdateSubscriptions env_fail_new
             (NewDispatcher ((DispatcherConfig d1)\<lparr>SaramaConfig := Some ?nc\<rparr>)) w1
             (SubscriberSpecs (DispatcherConfig d1)) = Inr (failed, nd, w2) \<and> map_len failed = 1)"
    by (simp add: env_fail_new_def example_defs op_defs)
  then obtain d1 w1 failed nd w2 where
    h4: "Shutdown env_fail_new dispatcher_A world_A = Inr (d1, w1)"
    and h5: "UpdateSubscriptions env_fail_new
             (NewDispatcher ((DispatcherConfig d1)\<lparr>SaramaConfig := Some ?nc\<rparr>)) w1
             (SubscriberSpecs (DispatcherConfig d1)) = Inr (failed, nd, w2)"
    and h6: "map_len failed = 1"
    by blast
  from h6 have h7: "0 < map_len failed" by simp
  from ConfigChanged_fatal [OF h1 h2 h3 h4 h5 h7] h1 h6 show ?thesis by simp
qed

subsection \<open>Tearing down one subscriber\<close>

lemma closeConsumerGroup_returns:
  assumes "ConsumerGroup s = None \<or> StopChan s \<notin> set (closed_chans w)"
  shows "closeConsumerGroup e d w s =
     Inr (d\<lparr>subscribers := (if removable e s then AList.delete (UID (SubscriberSpec s)) (subscribers d)
                              else subscribers d)\<rparr>,
          w\<lparr>closed_chans := (if ConsumerGroup s = None then [] else [StopChan s]) @ closed_chans w,
            events := events w @ teardown_events e (consumerUpdateLock d) s\<rparr>)"
  using assms
  by (auto simp: closeConsumerGroup_def removable_def teardown_events_def emit_def Let_def
           split: option.splits)

lemma map_filter_cong_set:
  "(\<And>x. x \<in> set xs \<Longrightarrow> f x = g x) \<Longrightarrow> List.map_filter f xs = List.map_filter g xs"
  by (induction xs) (auto simp: List.map_filter_simps split: option.splits)

lemma registry_ok_delete: "registry_ok d \<Longrightarrow> registry_ok (d\<lparr>subscribers := AList.delete k (subscribers d)\<rparr>)"
  unfolding registry_ok_def AList.delete_eq
  by (auto simp: distinct_map_filter)

lemma registry_ok_lookup:
  "registry_ok d \<Longrightarrow> map_of (subscribers d) k = Some s \<Longrightarrow>
   (k, s) \<in> set (subscribers d) \<and> UID (SubscriberSpec s) = k"
  by (auto simp: registry_ok_def dest: map_of_SomeD)

lemma registry_ok_chan_inj:
  assumes "registry_ok d" "map_of (subscribers d) k = Some s" "map_of (subscribers d) k' = Some s'"
    "StopChan s = StopChan s'"
  shows "k = k'"
proof -
  from assms have m: "(k, s) \<in> set (subscribers d)" "(k', s') \<in> set (subscribers d)"
    by (auto dest: map_of_SomeD)
  from assms(1) have "inj_on (\<lambda>(k, s). StopChan s) (set (subscribers d))"
    by (simp add: registry_ok_def distinct_map)
  from inj_onD [OF this _ m] assms(4) show ?thesis by simp
qed

lemma filter_delete_key:
  assumes "distinct (map fst al)" "map_of al k = Some s" "k \<notin> set ks" "k \<notin> set active"
  shows "filter (\<lambda>(k', s'). \<not> (k' \<in> set ks \<and> k' \<notin> set active \<and> removable e s'))
           (if removable e s then AList.delete k al else al)
       = filter (\<lambda>(k', s'). \<not> (k' \<in> set (k # ks) \<and> k' \<notin> set active \<and> removable e s')) al"
proof -
  have *: "\<And>k' s'. (k', s') \<in> set al \<Longrightarrow> k' = k \<Longrightarrow> s' = s"
    using assms(1,2) by (metis map_of_is_SomeI option.inject)
  show ?thesis
    unfolding AList.delete_eq using assms(3,4)
    by (auto intro!: filter_cong dest: *)
qed

lemma filter_active_key:
  assumes "k \<in> set active"
  shows "filter (\<lambda>(k', s'). \<not> (k' \<in> set ks \<and> k' \<notin> set active \<and> removable e s')) al
       = filter (\<lambda>(k', s'). \<not> (k' \<in> set (k # ks) \<and> k' \<notin> set active \<and> removable e s')) al"
  using assms by (auto intro!: filter_cong)

lemma filter_absent_key:
  assumes "map_of al k = None"
  shows "filter (\<lambda>(k', s'). \<not> (k' \<in> set ks \<and> k' \<notin> set active \<and> removable e s')) al
       = filter (\<lambda>(k', s'). \<not> (k' \<in> set (k # ks) \<and> k' \<notin> set active \<and> removable e s')) al"
proof -
  from assms have "k \<notin> fst ` set al" by (simp add: map_of_eq_None_iff)
  then show ?thesis by (force intro!: filter_cong)
qed

lemma UpdateSubscriptions_range_swept:
  assumes "registry_ok d" "distinct ks"
    and "\<forall>k\<in>set ks. \<forall>s. map_of (subscribers d) k = Some s \<longrightarrow> k \<notin> set active \<longrightarrow>
           ConsumerGroup s \<noteq> None \<longrightarrow> StopChan s \<notin> set (closed_chans w)"
  shows "UpdateSubscriptions_range e active ks d w = Inr (swept e active ks d w)"
  using assms
proof (induction ks arbitrary: d w)
  case Nil
  then show ?case by (simp add: swept_def List.map_filter_simps)
next
  case (Cons k ks)
  from Cons.prems have dist: "k \<notin> set ks" "distinct ks" by simp_all
  have rest: "\<forall>k\<in>set ks. \<forall>s. map_of (subscribers d) k = Some s \<longrightarrow> k \<notin> set active \<longrightarrow>
           ConsumerGroup s \<noteq> None \<longrightarrow> StopChan s \<notin> set (closed_chans w)"
    using Cons.prems(3) by simp
  show ?case
  proof (cases "map_of (subscribers d) k")
    case None
    have "swept e active ks d w = swept e active (k # ks) d w"
      using None filter_absent_key [OF None, of ks active e]
      by (simp add: swept_def List.map_filter_simps)
    with Cons.IH [OF Cons.prems(1) dist(2) rest] None show ?thesis by simp
  next
    case (Some s)
    from registry_ok_lookup [OF Cons.prems(1) Some] have uid: "UID (SubscriberSpec s) = k" by simp
    show ?thesis
    proof (cases "k \<in> set active")
      case True
      let ?d1 = "d\<lparr>DispatcherConfig := (DispatcherConfig d)
                \<lparr>SubscriberSpecs := SubscriberSpecs (DispatcherConfig d) @ [SubscriberSpec s]\<rparr>\<rparr>"
      have ok1: "registry_ok ?d1" using Cons.prems(1) by (simp add: registry_ok_def)
      have live1: "\<forall>k\<in>set ks. \<forall>s. map_of (subscribers ?d1) k = Some s \<longrightarrow> k \<notin> set active \<longrightarrow>
           ConsumerGroup s \<noteq> None \<longrightarrow> StopChan s \<notin> set (closed_chans w)"
        using rest by simp
      have "swept e active ks ?d1 w = swept e active (k # ks) d w"
        using Some True uid filter_active_key [OF True, of ks e "subscribers d"]
        by (simp add: swept_def List.map_filter_simps)
      with Cons.IH [OF ok1 dist(2) live1] Some True uid show ?thesis by simp
    next
      case False
      have live_s: "ConsumerGroup s = None \<or> StopChan s \<notin> set (closed_chans w)"
        using Cons.prems(3) Some False by auto
      let ?d1 = "d\<lparr>subscribers := (if removable e s then AList.delete k (subscribers d)
                              else subscribers d)\<rparr>"
      let ?w1 = "w\<lparr>closed_chans := (if ConsumerGroup s = None then [] else [StopChan s]) @ closed_chans w,
            events := events w @ teardown_events e (consumerUpdateLock d) s\<rparr>"
      have c: "closeConsumerGroup e d w s = Inr (?d1, ?w1)"
        using closeConsumerGroup_returns [OF live_s, of e d] uid by simp
      have ok1: "registry_ok ?d1"
        using Cons.prems(1) registry_ok_delete [OF Cons.prems(1), of k] by simp
      have look: "\<And>k'. k' \<in> set ks \<Longrightarrow> map_of (subscribers ?d1) k' = map_of (subscribers d) k'"
        using dist(1) by (auto simp: delete_conv)
      have v1: "List.map_filter (map_of (subscribers ?d1)) ks = List.map_filter (map_of (subscribers d)) ks"
        by (rule map_filter_cong_set) (rule look)
      have live1: "\<forall>k'\<in>set ks. \<forall>s'. map_of (subscribers ?d1) k' = Some s' \<longrightarrow> k' \<notin> set active \<longrightarrow>
           ConsumerGroup s' \<noteq> None \<longrightarrow> StopChan s' \<notin> set (closed_chans ?w1)"
      proof (intro ballI allI impI)
        fix k' s'
        assume k': "k' \<in> set ks" and l: "map_of (subscribers ?d1) k' = Some s'"
          and na: "k' \<notin> set active" and cg: "ConsumerGroup s' \<noteq> None"
        from l look [OF k'] have l': "map_of (subscribers d) k' = Some s'" by simp
        with rest k' na cg have "StopChan s' \<notin> set (closed_chans w)" by blast
        moreover have "StopChan s' \<noteq> StopChan s"
          using registry_ok_chan_inj [OF Cons.prems(1) l' Some] k' dist(1) by auto
        ultimately show "StopChan s' \<notin> set (closed_chans ?w1)" by simp
      qed
      have dk: "distinct (map fst (subscribers d))" using Cons.prems(1) by (simp add: registry_ok_def)
      have fd: "filter (\<lambda>(k', s'). \<not> (k' \<in> set ks \<and> k' \<notin> set active \<and> removable e s')) (subscribers ?d1)
            = filter (\<lambda>(k', s'). \<not> (k' \<in> set (k # ks) \<and> k' \<notin> set active \<and> removable e s')) (subscribers d)"
        using filter_delete_key [OF dk Some dist(1) False, of e] by simp
      have "swept e active ks ?d1 ?w1 = swept e active (k # ks) d w"
        unfolding swept_def v1 fd using Some False uid
        by (simp add: List.map_filter_simps)
      with Cons.IH [OF ok1 dist(2) live1] Some False uid c show ?thesis by simp
    qed
  qed
qed


lemma Shutdown_range_is_sweep:
  "Shutdown_range e ks d w = UpdateSubscriptions_range e [] ks d w"
  by (induction ks arbitrary: d w) (auto split: option.splits sum.splits)

lemma Shutdown_swept:
  assumes "registry_ok d" "range_ok e" "live d w"
  shows "Shutdown e d w = Inr (swept e [] (range_order e (map fst (subscribers d))) d w)"
proof -
  from assms(1) have dk: "distinct (map fst (subscribers d))" by (simp add: registry_ok_def)
  with assms(2) have "distinct (range_order e (map fst (subscribers d)))"
    by (simp add: range_ok_def)
  moreover have "\<forall>k\<in>set (range_order e (map fst (subscribers d))). \<forall>s.
      map_of (subscribers d) k = Some s \<longrightarrow> k \<notin> set [] \<longrightarrow>
      ConsumerGroup s \<noteq> None \<longrightarrow> StopChan s \<notin> set (closed_chans w)"
    using assms(3) by (auto simp: live_def dest!: map_of_SomeD)
  ultimately show ?thesis
    unfolding Shutdown_def Shutdown_range_is_sweep
    using UpdateSubscriptions_range_swept [OF assms(1)] by blast
qed

text \<open>
  Claim C8. \<^verbatim>\<open>closeConsumerGroup\<close> is the teardown of one subscriber; \<^verbatim>\<open>Shutdown\<close> calls it
  for every subscriber its range visits, the second loop of \<^verbatim>\<open>UpdateSubscriptions\<close> for
  every visited subscriber that is not active. For a subscriber with a consumer group
  whose stop channel is still open, the call returns, the stop channel is closed, and the
  events of the call are the stop signal first and the outcome of \<^verbatim>\<open>Close()\<close> after it:
  when \<^verbatim>\<open>Close()\<close> fails the dispatcher is unchanged (the subscriber stays in the
  registry), when it succeeds the subscriber's key is deleted. When the stop channel is
  closed already, the call panics before any \<^verbatim>\<open>Close()\<close>.
\<close>

theorem closeConsumerGroup_teardown:
  assumes "ConsumerGroup s = Some h"
  shows "(StopChan s \<notin> set (closed_chans w) \<longrightarrow>
          (\<exists>d' w'. closeConsumerGroup e d w s = Inr (d', w')
             \<and> StopChan s \<in> set (closed_chans w')
             \<and> (\<forall>err. Close e h = Some err \<longrightarrow>
                    d' = d \<and>
                    events w' = events w @ [StopSignalled (StopChan s), GroupCloseFailed h err])
             \<and> (Close e h = None \<longrightarrow>
                    subscribers d' = AList.delete (UID (SubscriberSpec s)) (subscribers d) \<and>
                    map_of (subscribers d') (UID (SubscriberSpec s)) = None \<and>
                    events w' = events w @
                      [StopSignalled (StopChan s), GroupClosed h,
                       Deregistered (UID (SubscriberSpec s)) (consumerUpdateLock d)])))
       \<and> (StopChan s \<in> set (closed_chans w) \<longrightarrow>
            closeConsumerGroup e d w s = Inl (Panic ''close of closed channel''))
       \<and> (map_of (subscribers d) k = Some s \<longrightarrow>
            Shutdown_range e (k # ks) d w =
              (case closeConsumerGroup e d w s of
                 Inl a \<Rightarrow> Inl a | Inr (d', w') \<Rightarrow> Shutdown_range e ks d' w'))
       \<and> (map_of (subscribers d) k = Some s \<and> UID (SubscriberSpec s) \<notin> set active \<longrightarrow>
            UpdateSubscriptions_range e active (k # ks) d w =
              (case closeConsumerGroup e d w s of
                 Inl a \<Rightarrow> Inl a | Inr (d', w') \<Rightarrow> UpdateSubscriptions_range e active ks d' w'))"
  using assms
  by (auto simp: closeConsumerGroup_def emit_def Let_def delete_conv split: option.splits)

theorem closeConsumerGroup_teardown_witness:
  "ConsumerGroup (wrapper_of ''A'' 0) = Some 0
   \<and> StopChan (wrapper_of ''A'' 0) \<notin> set (closed_chans world_A)
   \<and> Close env_close_fails 0 = Some ''close failed''
   \<and> closeConsumerGroup env_close_fails dispatcher_A world_A (wrapper_of ''A'' 0)
       = Inr (dispatcher_A,
              world_A\<lparr>closed_chans := [1],
                      events := events world_A @ [StopSignalled 1, GroupCloseFailed 0 ''close failed'']\<rparr>)
   \<and> Close env0 0 = None
   \<and> closeConsumerGroup env0 dispatcher_A world_A (wrapper_of ''A'' 0)
       = Inr (dispatcher_A\<lparr>subscribers := []\<rparr>,
              world_A\<lparr>closed_chans := [1],
                      events := events world_A @
                        [StopSignalled 1, GroupClosed 0, Deregistered ''A'' False]\<rparr>)
   \<and> StopChan (wrapper_of ''A'' 0) \<in> set (closed_chans world_retained)
   \<and> closeConsumerGroup env_close_fails dispatcher_retained world_retained (wrapper_of ''A'' 0)
       = Inl (Panic ''close of closed channel'')
   \<and> map_of (subscribers dispatcher_A) ''A'' = Some (wrapper_of ''A'' 0)
   \<and> Shutdown_range env0 [''A''] dispatcher_A world_A
       = Inr (dispatcher_A\<lparr>subscribers := []\<rparr>,
              world_A\<lparr>closed_chans := [1],
                      events := events world_A @
                        [StopSignalled 1, GroupClosed 0, Deregistered ''A'' False]\<rparr>)
   \<and> UpdateSubscriptions_range env0 [] [''A''] dispatcher_A world_A
       = Inr (dispatcher_A\<lparr>subscribers := []\<rparr>,
              world_A\<lparr>closed_chans := [1],
                      events := events world_A @
                        [StopSignalled 1, GroupClosed 0, Deregistered ''A'' False]\<rparr>)"
proof -
  have h: "ConsumerGroup (wrapper_of ''A'' 0) = Some 0" by (simp add: wrapper_of_def)
  from closeConsumerGroup_teardown [OF h, of world_A env_close_fails dispatcher_A]
       closeConsumerGroup_teardown [OF h, of world_A env0 dispatcher_A "''A''" "[]" "[]"]
       closeConsumerGroup_teardown [OF h, of world_retained env_close_fails dispatcher_retained]
  show ?thesis
    by (simp add: env_close_fails_def dispatcher_retained_def world_retained_def
          example_defs op_defs)
qed

subsection \<open>The first loop of UpdateSubscriptions\<close>

lemma update_absent: "map_of al k = None \<Longrightarrow> AList.update k v al = al @ [(k, v)]"
  by (induction al) (auto split: if_splits)

lemma subscribe_registered:
  "map_of (subscribers d) (UID s) = Some x \<Longrightarrow>
   subscribe e sc s d w a f = (d, w, List.insert (UID s) a, f)"
  by (simp add: subscribe_def)

lemma subscribe_failed:
  "map_of (subscribers d) (UID s) = None \<Longrightarrow>
   CreateConsumerGroup e (Brokers (DispatcherConfig d)) sc (groupId_of (UID s)) = Some err \<Longrightarrow>
   subscribe e sc s d w a f =
     (d, w\<lparr>events := events w @ [GroupCreateFailed (groupId_of (UID s)) err]\<rparr>, a,
      AList.update s err f)"
  by (simp add: subscribe_def emit_def)

lemma subscribe_created:
  "map_of (subscribers d) (UID s) = None \<Longrightarrow>
   CreateConsumerGroup e (Brokers (DispatcherConfig d)) sc (groupId_of (UID s)) = None \<Longrightarrow>
   subscribe e sc s d w a f =
     (d\<lparr>subscribers := subscribers d @ [(UID s, new_wrapper s (next_id w))]\<rparr>,
      w\<lparr>next_id := Suc (Suc (next_id w)),
        events := events w @ [GroupCreated (groupId_of (UID s)) (next_id w),
                              ConsumingStarted (UID s) (next_id w),
                              Registered (UID s) (consumerUpdateLock d)]\<rparr>,
      List.insert (UID s) a, f)"
  by (simp add: subscribe_def emit_def Let_def NewSubscriberWrapper_def startConsuming_def
        new_wrapper_def update_absent)

lemma subscribe_cases:
  obtains (registered) x where "map_of (subscribers d) (UID s) = Some x"
      "subscribe e sc s d w a f = (d, w, List.insert (UID s) a, f)"
  | (failed) err where "map_of (subscribers d) (UID s) = None"
      "CreateConsumerGroup e (Brokers (DispatcherConfig d)) sc (groupId_of (UID s)) = Some err"
      "subscribe e sc s d w a f =
        (d, w\<lparr>events := events w @ [GroupCreateFailed (groupId_of (UID s)) err]\<rparr>, a,
         AList.update s err f)"
  | (created) "map_of (subscribers d) (UID s) = None"
      "CreateConsumerGroup e (Brokers (DispatcherConfig d)) sc (groupId_of (UID s)) = None"
      "subscribe e sc s d w a f =
        (d\<lparr>subscribers := subscribers d @ [(UID s, new_wrapper s (next_id w))]\<rparr>,
         w\<lparr>next_id := Suc (Suc (next_id w)),
           events := events w @ [GroupCreated (groupId_of (UID s)) (next_id w),
                                 ConsumingStarted (UID s) (next_id w),
                                 Registered (UID s) (consumerUpdateLock d)]\<rparr>,
         List.insert (UID s) a, f)"
proof (cases "map_of (subscribers d) (UID s)")
  case (Some x)
  with subscribe_registered [OF Some] registered show ?thesis by blast
next
  case None
  show ?thesis
  proof (cases "CreateConsumerGroup e (Brokers (DispatcherConfig d)) sc (groupId_of (UID s))")
    case ok: None
    with subscribe_created [OF None ok] None created show ?thesis by blast
  next
    case (Some err)
    with subscribe_failed [OF None Some] None failed show ?thesis by blast
  qed
qed

lemma wf_append:
  assumes "wf d w" "map_of (subscribers d) (UID s) = None"
  shows "wf (d\<lparr>subscribers := subscribers d @ [(UID s, new_wrapper s (next_id w))]\<rparr>)
            (w\<lparr>next_id := Suc (Suc (next_id w)), events := evs\<rparr>)"
proof -
  from assms(2) have "UID s \<notin> fst ` set (subscribers d)" by (simp add: map_of_eq_None_iff)
  moreover have "\<And>k x. (k, x) \<in> set (subscribers d) \<Longrightarrow> StopChan x \<noteq> Suc (next_id w)"
    using assms(1) by (fastforce simp: wf_def)
  ultimately show ?thesis
    using assms(1)
    by (auto simp: wf_def registry_ok_def new_wrapper_def less_Suc_eq)
qed

lemma subscribe_wf:
  assumes "subscribe e sc s d w a f = (d', w', a', f')" "wf d w"
  shows "wf d' w'"
proof (cases rule: subscribe_cases [of d s e sc w a f])
  case (registered x)
  with assms show ?thesis by simp
next
  case (failed err)
  with assms show ?thesis by (auto simp: wf_def registry_ok_def)
next
  case created
  with assms wf_append [OF assms(2) created(1)] show ?thesis by auto
qed

lemma UpdateSubscriptions_specs_wf:
  "UpdateSubscriptions_specs e sc ss d w a f = (d', w', a', f') \<Longrightarrow> wf d w \<Longrightarrow> wf d' w'"
proof (induction ss arbitrary: d w a f)
  case Nil
  then show ?case by simp
next
  case (Cons s ss)
  obtain d1 w1 a1 f1 where b: "subscribe e sc s d w a f = (d1, w1, a1, f1)"
    by (metis prod_cases4)
  with Cons.prems have r: "UpdateSubscriptions_specs e sc ss d1 w1 a1 f1 = (d', w', a', f')"
    by simp
  from Cons.IH [OF r subscribe_wf [OF b Cons.prems(2)]] show ?case .
qed

text \<open>Subscribers that are registered stay as they are.\<close>

lemma subscribe_keeps:
  assumes "subscribe e sc s d w a f = (d', w', a', f')" "map_of (subscribers d) k = Some x"
  shows "map_of (subscribers d') k = Some x"
proof (cases rule: subscribe_cases [of d s e sc w a f])
  case (registered y)
  with assms show ?thesis by simp
next
  case (failed err)
  with assms show ?thesis by simp
next
  case created
  with assms show ?thesis by (auto simp: map_add_def split: if_splits option.splits)
qed

lemma UpdateSubscriptions_specs_keeps:
  "UpdateSubscriptions_specs e sc ss d w a f = (d', w', a', f') \<Longrightarrow>
   map_of (subscribers d) k = Some x \<Longrightarrow> map_of (subscribers d') k = Some x"
proof (induction ss arbitrary: d w a f)
  case Nil
  then show ?case by simp
next
  case (Cons s ss)
  obtain d1 w1 a1 f1 where b: "subscribe e sc s d w a f = (d1, w1, a1, f1)"
    by (metis prod_cases4)
  with Cons.prems have r: "UpdateSubscriptions_specs e sc ss d1 w1 a1 f1 = (d', w', a', f')"
    by simp
  from Cons.IH [OF r subscribe_keeps [OF b Cons.prems(2)]] show ?case .
qed


text \<open>The keys of the registry after the loop: those before it, and the UIDs of the
  specs for which the factory succeeds.\<close>

lemma subscribe_dom:
  assumes "subscribe e sc s d w a f = (d', w', a', f')"
  shows "dom (map_of (subscribers d')) =
         dom (map_of (subscribers d)) \<union>
         {k. k = UID s \<and> CreateConsumerGroup e (Brokers (DispatcherConfig d)) sc (groupId_of k) = None}"
proof (cases rule: subscribe_cases [of d s e sc w a f])
  case (registered x)
  with assms show ?thesis by auto
next
  case (failed err)
  with assms show ?thesis by auto
next
  case created
  with assms show ?thesis by (auto simp: map_add_def split: if_splits option.splits)
qed

lemma UpdateSubscriptions_specs_dom:
  "UpdateSubscriptions_specs e sc ss d w a f = (d', w', a', f') \<Longrightarrow>
   dom (map_of (subscribers d')) =
     dom (map_of (subscribers d)) \<union>
     {k. k \<in> UID ` set ss \<and>
         CreateConsumerGroup e (Brokers (DispatcherConfig d)) sc (groupId_of k) = None}"
proof (induction ss arbitrary: d w a f)
  case Nil
  then show ?case by simp
next
  case (Cons s ss)
  obtain d1 w1 a1 f1 where b: "subscribe e sc s d w a f = (d1, w1, a1, f1)"
    by (metis prod_cases4)
  with Cons.prems have r: "UpdateSubscriptions_specs e sc ss d1 w1 a1 f1 = (d', w', a', f')"
    by simp
  from subscribe_frame [OF b] have c: "DispatcherConfig d1 = DispatcherConfig d" by simp
  from Cons.IH [OF r] subscribe_dom [OF b] c show ?case by auto
qed

text \<open>The subscribers that the loop adds.\<close>

lemma subscribe_new:
  assumes "subscribe e sc s d w a f = (d', w', a', f')"
    "map_of (subscribers d') k = Some x" "map_of (subscribers d) k = None"
  shows "k = UID s \<and> x = new_wrapper s (next_id w)"
proof (cases rule: subscribe_cases [of d s e sc w a f])
  case (registered y)
  with assms show ?thesis by simp
next
  case (failed err)
  with assms show ?thesis by simp
next
  case created
  with assms show ?thesis by (auto simp: map_add_def split: if_splits option.splits)
qed

lemma UpdateSubscriptions_specs_new:
  "UpdateSubscriptions_specs e sc ss d w a f = (d', w', a', f') \<Longrightarrow>
   map_of (subscribers d') k = Some x \<Longrightarrow> map_of (subscribers d) k = None \<Longrightarrow>
   \<exists>s n. s \<in> set ss \<and> UID s = k \<and> next_id w \<le> n \<and> x = new_wrapper s n"
proof (induction ss arbitrary: d w a f)
  case Nil
  then show ?case by simp
next
  case (Cons s ss)
  obtain d1 w1 a1 f1 where b: "subscribe e sc s d w a f = (d1, w1, a1, f1)"
    by (metis prod_cases4)
  with Cons.prems have r: "UpdateSubscriptions_specs e sc ss d1 w1 a1 f1 = (d', w', a', f')"
    by simp
  show ?case
  proof (cases "map_of (subscribers d1) k")
    case None
    from Cons.IH [OF r Cons.prems(2) None] subscribe_frame [OF b] show ?thesis
      by (auto intro: le_trans)
  next
    case (Some y)
    from UpdateSubscriptions_specs_keeps [OF r Some] Cons.prems(2) have "y = x" by simp
    with subscribe_new [OF b Some Cons.prems(3)] show ?thesis by auto
  qed
qed

text \<open>\<^verbatim>\<open>activeSubscriptions\<close> after the loop: the UIDs of the specs that are registered.\<close>

lemma subscribe_active:
  assumes "subscribe e sc s d w a f = (d', w', a', f')"
  shows "set a' = set a \<union> ({UID s} \<inter> dom (map_of (subscribers d')))"
proof (cases rule: subscribe_cases [of d s e sc w a f])
  case (registered x)
  with assms show ?thesis by auto
next
  case (failed err)
  with assms show ?thesis by auto
next
  case created
  with assms show ?thesis by (auto simp: map_add_def split: if_splits option.splits)
qed

lemma UpdateSubscriptions_specs_active:
  "UpdateSubscriptions_specs e sc ss d w a f = (d', w', a', f') \<Longrightarrow>
   set a' = set a \<union> (UID ` set ss \<inter> dom (map_of (subscribers d')))"
proof (induction ss arbitrary: d w a f)
  case Nil
  then show ?case by simp
next
  case (Cons s ss)
  obtain d1 w1 a1 f1 where b: "subscribe e sc s d w a f = (d1, w1, a1, f1)"
    by (metis prod_cases4)
  with Cons.prems have r: "UpdateSubscriptions_specs e sc ss d1 w1 a1 f1 = (d', w', a', f')"
    by simp
  have "dom (map_of (subscribers d1)) \<subseteq> dom (map_of (subscribers d'))"
    using UpdateSubscriptions_specs_keeps [OF r] by blast
  moreover have "UID s \<in> dom (map_of (subscribers d')) \<Longrightarrow> UID s \<in> dom (map_of (subscribers d1))"
    using UpdateSubscriptions_specs_dom [OF r] subscribe_dom [OF b] subscribe_frame [OF b]
    by auto
  ultimately show ?case
    using Cons.IH [OF r] subscribe_active [OF b] by auto
qed


text \<open>\<^verbatim>\<open>failedSubscriptions\<close> after the loop.\<close>

lemma subscribe_failures:
  assumes "subscribe e sc s d w a f = (d', w', a', f')"
  shows "f' = (if failing e sc d s then AList.update s (failure_of e sc d s) f else f)"
proof (cases rule: subscribe_cases [of d s e sc w a f])
  case (registered x)
  with assms show ?thesis by (simp add: failing_def)
next
  case (failed err)
  with assms show ?thesis by (simp add: failing_def failure_of_def)
next
  case created
  with assms show ?thesis by (simp add: failing_def)
qed

lemma subscribe_failing_later:
  assumes "subscribe e sc s d w a f = (d', w', a', f')"
  shows "failing e sc d' t = failing e sc d t"
proof (cases rule: subscribe_cases [of d s e sc w a f])
  case (registered x)
  with assms show ?thesis by (simp add: failing_def)
next
  case (failed err)
  with assms show ?thesis by (simp add: failing_def)
next
  case created
  with assms show ?thesis
    by (cases "UID t = UID s") (auto simp: failing_def map_add_def split: option.splits)
qed

lemma UpdateSubscriptions_specs_failures:
  "UpdateSubscriptions_specs e sc ss d w a f = (d', w', a', f') \<Longrightarrow>
   f' = fold (\<lambda>s. AList.update s (failure_of e sc d s)) (filter (failing e sc d) ss) f"
proof (induction ss arbitrary: d w a f)
  case Nil
  then show ?case by simp
next
  case (Cons s ss)
  obtain d1 w1 a1 f1 where b: "subscribe e sc s d w a f = (d1, w1, a1, f1)"
    by (metis prod_cases4)
  with Cons.prems have r: "UpdateSubscriptions_specs e sc ss d1 w1 a1 f1 = (d', w', a', f')"
    by simp
  from subscribe_frame [OF b] have c: "DispatcherConfig d1 = DispatcherConfig d" by simp
  have "failing e sc d1 = failing e sc d"
    by (rule ext) (rule subscribe_failing_later [OF b])
  then have "filter (failing e sc d1) ss = filter (failing e sc d) ss" by simp
  moreover have "\<And>t. failure_of e sc d1 t = failure_of e sc d t"
    using c by (simp add: failure_of_def)
  ultimately show ?case
    using Cons.IH [OF r] subscribe_failures [OF b] by simp
qed

text \<open>When every spec is registered already, the loop calls no factory and changes
  nothing but \<^verbatim>\<open>activeSubscriptions\<close>.\<close>

lemma UpdateSubscriptions_specs_registered:
  "\<forall>s\<in>set ss. map_of (subscribers d) (UID s) \<noteq> None \<Longrightarrow>
   \<exists>a'. UpdateSubscriptions_specs e sc ss d w a f = (d, w, a', f) \<and> set a' = set a \<union> UID ` set ss"
proof (induction ss arbitrary: a)
  case Nil
  then show ?case by simp
next
  case (Cons s ss)
  then obtain x where x: "map_of (subscribers d) (UID s) = Some x" by auto
  from Cons.IH [of "List.insert (UID s) a"] Cons.prems
  obtain a' where "UpdateSubscriptions_specs e sc ss d w (List.insert (UID s) a) f = (d, w, a', f)"
    "set a' = set (List.insert (UID s) a) \<union> UID ` set ss" by auto
  with subscribe_registered [OF x] show ?case by auto
qed

text \<open>The events of the loop.\<close>

lemma subscribe_events:
  assumes "subscribe e sc s d w a f = (d', w', a', f')"
  shows "\<exists>evs. events w' = events w @ evs \<and> (\<forall>ev\<in>set evs. creation_event (consumerUpdateLock d) ev)"
proof (cases rule: subscribe_cases [of d s e sc w a f])
  case (registered x)
  with assms show ?thesis by simp
next
  case (failed err)
  with assms show ?thesis by auto
next
  case created
  with assms show ?thesis by auto
qed

lemma UpdateSubscriptions_specs_events:
  "UpdateSubscriptions_specs e sc ss d w a f = (d', w', a', f') \<Longrightarrow>
   \<exists>evs. events w' = events w @ evs \<and> (\<forall>ev\<in>set evs. creation_event (consumerUpdateLock d) ev)"
proof (induction ss arbitrary: d w a f)
  case Nil
  then show ?case by simp
next
  case (Cons s ss)
  obtain d1 w1 a1 f1 where b: "subscribe e sc s d w a f = (d1, w1, a1, f1)"
    by (metis prod_cases4)
  with Cons.prems have r: "UpdateSubscriptions_specs e sc ss d1 w1 a1 f1 = (d', w', a', f')"
    by simp
  from subscribe_frame [OF b] have c: "consumerUpdateLock d1 = consumerUpdateLock d" by simp
  from subscribe_events [OF b] obtain evs1 where
    e1: "events w1 = events w @ evs1" "\<forall>ev\<in>set evs1. creation_event (consumerUpdateLock d) ev"
    by blast
  from Cons.IH [OF r] c obtain evs2 where
    e2: "events w' = events w1 @ evs2" "\<forall>ev\<in>set evs2. creation_event (consumerUpdateLock d) ev"
    by auto
  from e1 e2 have "events w' = events w @ (evs1 @ evs2)"
    "\<forall>ev\<in>set (evs1 @ evs2). creation_event (consumerUpdateLock d) ev" by auto
  then show ?case by blast
qed

subsection \<open>The second loop, whenever it returns\<close>

lemma closeConsumerGroup_result:
  assumes "closeConsumerGroup e d w s = Inr (d', w')"
  shows "(subscribers d' = subscribers d \<or>
          subscribers d' = AList.delete (UID (SubscriberSpec s)) (subscribers d))
       \<and> (\<exists>evs. events w' = events w @ evs \<and>
              (\<forall>ev\<in>set evs. teardown_event (consumerUpdateLock d) ev))"
  using assms
  by (auto simp: closeConsumerGroup_def emit_def Let_def split: option.splits if_splits)

lemma registry_ok_config [simp]:
  "registry_ok (d\<lparr>DispatcherConfig := c\<rparr>) = registry_ok d"
  "registry_ok (d\<lparr>consumerUpdateLock := b\<rparr>) = registry_ok d"
  by (simp_all add: registry_ok_def)

lemma wf_config [simp]:
  "wf (d\<lparr>DispatcherConfig := c\<rparr>) w = wf d w"
  "wf (d\<lparr>consumerUpdateLock := b\<rparr>) w = wf d w"
  by (simp_all add: wf_def)

lemma wf_delete:
  assumes "wf d w"
  shows "wf (d\<lparr>subscribers := AList.delete k (subscribers d)\<rparr>) w"
proof -
  have "set (AList.delete k (subscribers d)) \<subseteq> set (subscribers d)"
    by (auto simp: AList.delete_eq)
  with assms registry_ok_delete [of d k] show ?thesis
    by (auto simp: wf_def)
qed

lemma closeConsumerGroup_wf:
  assumes "closeConsumerGroup e d w s = Inr (d', w')" "wf d w"
  shows "wf d' w'"
proof -
  from closeConsumerGroup_frame [OF assms(1)] have n: "next_id w' = next_id w" by simp
  have d': "d' = d \<or> d' = d\<lparr>subscribers := AList.delete (UID (SubscriberSpec s)) (subscribers d)\<rparr>"
    using assms(1)
    by (auto simp: closeConsumerGroup_def emit_def Let_def split: option.splits if_splits)
  from d' wf_delete [OF assms(2), of "UID (SubscriberSpec s)"] assms(2) n show ?thesis
    by (auto simp: wf_def)
qed

lemma UpdateSubscriptions_range_returned:
  "UpdateSubscriptions_range e active ks d w = Inr (d', w') \<Longrightarrow>
   (wf d w \<longrightarrow> wf d' w')
   \<and> (\<forall>k\<in>set active. map_of (subscribers d') k = map_of (subscribers d) k)
   \<and> (\<exists>evs. events w' = events w @ evs \<and>
          (\<forall>ev\<in>set evs. teardown_event (consumerUpdateLock d) ev))"
proof (induction ks arbitrary: d w)
  case Nil
  then show ?case by simp
next
  case (Cons k ks)
  show ?case
  proof (cases "map_of (subscribers d) k")
    case None
    with Cons show ?thesis by simp
  next
    case (Some s)
    show ?thesis
    proof (cases "UID (SubscriberSpec s) \<in> set active")
      case True
      with Some Cons.prems have
        "UpdateSubscriptions_range e active ks
           (d\<lparr>DispatcherConfig := (DispatcherConfig d)
                \<lparr>SubscriberSpecs := SubscriberSpecs (DispatcherConfig d) @ [SubscriberSpec s]\<rparr>\<rparr>) w
         = Inr (d', w')" by simp
      from Cons.IH [OF this] show ?thesis by simp
    next
      case False
      with Some Cons.prems obtain d1 w1 where c: "closeConsumerGroup e d w s = Inr (d1, w1)"
        and r: "UpdateSubscriptions_range e active ks d1 w1 = Inr (d', w')"
        by (auto split: sum.splits)
      from closeConsumerGroup_frame [OF c] have l: "consumerUpdateLock d1 = consumerUpdateLock d"
        by simp
      from closeConsumerGroup_result [OF c] obtain evs1 where
        s1: "subscribers d1 = subscribers d \<or>
             subscribers d1 = AList.delete (UID (SubscriberSpec s)) (subscribers d)"
        and e1: "events w1 = events w @ evs1"
          "\<forall>ev\<in>set evs1. teardown_event (consumerUpdateLock d) ev"
        by blast
      from Cons.IH [OF r] l obtain evs2 where
        i1: "wf d1 w1 \<longrightarrow> wf d' w'"
        and i2: "\<forall>k\<in>set active. map_of (subscribers d') k = map_of (subscribers d1) k"
        and e2: "events w' = events w1 @ evs2"
          "\<forall>ev\<in>set evs2. teardown_event (consumerUpdateLock d) ev"
        by auto
      have k1: "\<forall>k\<in>set active. map_of (subscribers d1) k = map_of (subscribers d) k"
        using s1 False by (auto simp: delete_conv)
      from e1 e2 have "events w' = events w @ (evs1 @ evs2)"
        "\<forall>ev\<in>set (evs1 @ evs2). teardown_event (consumerUpdateLock d) ev" by auto
      then have "\<exists>evs. events w' = events w @ evs \<and>
          (\<forall>ev\<in>set evs. teardown_event (consumerUpdateLock d) ev)" by blast
      with i1 i2 k1 closeConsumerGroup_wf [OF c] show ?thesis by simp
    qed
  qed
qed

subsection \<open>A whole call of UpdateSubscriptions\<close>

lemma map_of_filter_distinct:
  "distinct (map fst al) \<Longrightarrow>
   map_of (filter (\<lambda>(k, x). P k x) al) k =
     (case map_of al k of None \<Rightarrow> None | Some x \<Rightarrow> if P k x then Some x else None)"
proof (induction al)
  case Nil
  then show ?case by simp
next
  case (Cons p al)
  obtain k' x' where p: "p = (k', x')" by (cases p)
  from Cons.prems p have notin: "k' \<notin> fst ` set al" and dist: "distinct (map fst al)" by auto
  from notin have none: "map_of al k' = None" by (simp add: map_of_eq_None_iff)
  from notin have none': "map_of (filter (\<lambda>(k, x). P k x) al) k' = None"
    by (auto simp: map_of_eq_None_iff)
  show ?case
    using Cons.IH [OF dist] p none none' by (auto split: option.splits)
qed

text \<open>A call on a well-formed state returns when no subscriber that it tears down has
  its stop channel closed already; the state after it is the closed form of the second
  loop on the state after the first.\<close>

lemma UpdateSubscriptions_returns:
  assumes cfg: "SaramaConfig (DispatcherConfig d) = Some sc"
    and wf: "wf d w" and ro: "range_ok e"
    and open_chans: "\<forall>(k, x) \<in> set (subscribers d). k \<notin> UID ` set ss \<longrightarrow>
           ConsumerGroup x \<noteq> None \<longrightarrow> StopChan x \<notin> set (closed_chans w)"
  obtains d1 w1 active failed d' w' where
    "UpdateSubscriptions_specs e sc ss (d\<lparr>consumerUpdateLock := True\<rparr>) w [] []
       = (d1, w1, active, failed)"
    "swept e active (range_order e (map fst (subscribers d1)))
       (d1\<lparr>DispatcherConfig := (DispatcherConfig d1)\<lparr>SubscriberSpecs := []\<rparr>\<rparr>) w1 = (d', w')"
    "UpdateSubscriptions e d w ss = Inr (Some failed, d'\<lparr>consumerUpdateLock := False\<rparr>, w')"
    "wf d1 w1" "set active = UID ` set ss \<inter> dom (map_of (subscribers d1))"
    "set (range_order e (map fst (subscribers d1))) = dom (map_of (subscribers d1))"
proof -
  let ?d0 = "d\<lparr>consumerUpdateLock := True\<rparr>"
  obtain d1 w1 active failed where
    l1: "UpdateSubscriptions_specs e sc ss ?d0 w [] [] = (d1, w1, active, failed)"
    by (metis prod_cases4)
  let ?d2 = "d1\<lparr>DispatcherConfig := (DispatcherConfig d1)\<lparr>SubscriberSpecs := []\<rparr>\<rparr>"
  let ?ks = "range_order e (map fst (subscribers d1))"
  from wf have wf0: "wf ?d0 w" by simp
  from UpdateSubscriptions_specs_wf [OF l1 wf0] have wf1: "wf d1 w1" .
  then have ok2: "registry_ok ?d2" by (simp add: wf_def)
  from wf1 have dk: "distinct (map fst (subscribers d1))" by (simp add: wf_def registry_ok_def)
  with ro have ks: "distinct ?ks" "set ?ks = set (map fst (subscribers d1))"
    by (simp_all add: range_ok_def)
  from ks(2) have ksdom: "set ?ks = dom (map_of (subscribers d1))"
    by (simp add: dom_map_of_conv_image_fst)
  from UpdateSubscriptions_specs_active [OF l1]
  have act: "set active = UID ` set ss \<inter> dom (map_of (subscribers d1))" by simp
  from UpdateSubscriptions_specs_frame [OF l1] have cl: "closed_chans w1 = closed_chans w" by simp
  have pre: "\<forall>k\<in>set ?ks. \<forall>x. map_of (subscribers ?d2) k = Some x \<longrightarrow> k \<notin> set active \<longrightarrow>
           ConsumerGroup x \<noteq> None \<longrightarrow> StopChan x \<notin> set (closed_chans w1)"
  proof (intro ballI allI impI)
    fix k x
    assume l: "map_of (subscribers ?d2) k = Some x" and na: "k \<notin> set active"
      and cg: "ConsumerGroup x \<noteq> None"
    from l have l1k: "map_of (subscribers d1) k = Some x" by simp
    with na act have nu: "k \<notin> UID ` set ss" by auto
    have "map_of (subscribers ?d0) k \<noteq> None"
    proof
      assume "map_of (subscribers ?d0) k = None"
      from UpdateSubscriptions_specs_new [OF l1 l1k this] nu show False by auto
    qed
    then obtain y where y: "map_of (subscribers d) k = Some y" by auto
    then have "map_of (subscribers ?d0) k = Some y" by simp
    from UpdateSubscriptions_specs_keeps [OF l1 this] l1k have "y = x" by simp
    with y have "(k, x) \<in> set (subscribers d)" by (auto dest: map_of_SomeD)
    with open_chans nu cg cl show "StopChan x \<notin> set (closed_chans w1)" by auto
  qed
  obtain d' w' where sw: "swept e active ?ks ?d2 w1 = (d', w')" by (cases "swept e active ?ks ?d2 w1")
  from UpdateSubscriptions_range_swept [OF ok2 ks(1) pre] sw
  have "UpdateSubscriptions_range e active ?ks ?d2 w1 = Inr (d', w')" by simp
  with cfg l1 have "UpdateSubscriptions e d w ss = Inr (Some failed, d'\<lparr>consumerUpdateLock := False\<rparr>, w')"
    by (simp add: UpdateSubscriptions_def Let_def)
  with that l1 sw wf1 act ksdom show thesis by blast
qed

text \<open>The registry after such a call, from the registry after the first loop.\<close>

lemma swept_registry:
  assumes "swept e active ks d1 w1 = (d', w')" "distinct (map fst (subscribers d1))"
    "set active = U \<inter> dom (map_of (subscribers d1))" "set ks = dom (map_of (subscribers d1))"
  shows "map_of (subscribers d') k =
     (case map_of (subscribers d1) k of
        None \<Rightarrow> None
      | Some x \<Rightarrow> if k \<in> U \<or> \<not> removable e x then Some x else None)"
proof -
  from assms(1) have "subscribers d' =
      filter (\<lambda>(k, s). \<not> (k \<in> set ks \<and> k \<notin> set active \<and> removable e s)) (subscribers d1)"
    by (auto simp: swept_def)
  then show ?thesis
    using map_of_filter_distinct [OF assms(2),
        of "\<lambda>k s. \<not> (k \<in> set ks \<and> k \<notin> set active \<and> removable e s)" k] assms(3,4)
    by (auto split: option.splits)
qed

lemma fold_update_one:
  "fold (\<lambda>t. AList.update t (g t)) (filter (\<lambda>t. t = s) ss) acc =
     (if s \<in> set ss then AList.update s (g s) acc else acc)"
proof (induction ss arbitrary: acc)
  case Nil
  then show ?case by simp
next
  case (Cons t ss)
  then show ?case by auto
qed


subsection \<open>One failing entry among the specified subscribers\<close>

text \<open>
  Claim C1, as stated, on a concrete input: \<open>A\<close> is registered and its consumer group
  fails to close, the specified subscribers are \<open>B\<close> and \<open>C\<close>, and the factory fails for
  \<open>B\<close> only. The returned map holds \<open>B\<close> with its error, but the registry afterwards
  holds \<open>A\<close> besides \<open>C\<close>: an entry that is neither specified nor newly created.
\<close>

theorem UpdateSubscriptions_one_failure_counterexample:
  "returned_map (UpdateSubscriptions env_B_fails dispatcher_A world_A [spec_of ''B'', spec_of ''C''])
     = Some [(spec_of ''B'', ''no broker'')]
   \<and> registry_after (UpdateSubscriptions env_B_fails dispatcher_A world_A
                       [spec_of ''B'', spec_of ''C'']) = [''A'', ''C'']
   \<and> ''A'' \<notin> UID ` set [spec_of ''B'', spec_of ''C'']"
  by (simp add: returned_map_def registry_after_def env_B_fails_def example_defs op_defs)

text \<open>
  Claim C1, amended. On a well-formed dispatcher with a configuration, let the factory
  fail with \<open>E\<close> for exactly one of the specified subscribers that are not registered,
  \<open>s\<close>, and let no registered subscriber outside the specified ones have its stop channel
  closed already. Then \<^verbatim>\<open>UpdateSubscriptions\<close> returns the map with the one entry
  \<open>s \<mapsto> E\<close>, and the registry afterwards is:
  \<^item> of the subscribers registered before, unchanged, those that are specified and those
    whose consumer group failed to close;
  \<^item> a new subscriber for every other specified UID but that of \<open>s\<close>, created from a
    spec of the list with that UID.
\<close>

theorem UpdateSubscriptions_one_failure:
  assumes "SaramaConfig (DispatcherConfig d) = Some sc"
    and "wf d w" and "range_ok e"
    and "\<forall>(k, x) \<in> set (subscribers d). k \<notin> UID ` set ss \<longrightarrow>
           ConsumerGroup x \<noteq> None \<longrightarrow> StopChan x \<notin> set (closed_chans w)"
    and "s \<in> set ss" and "map_of (subscribers d) (UID s) = None"
    and "CreateConsumerGroup e (Brokers (DispatcherConfig d)) sc (groupId_of (UID s)) = Some E"
    and "\<forall>t\<in>set ss. t \<noteq> s \<longrightarrow> map_of (subscribers d) (UID t) = None \<longrightarrow>
           CreateConsumerGroup e (Brokers (DispatcherConfig d)) sc (groupId_of (UID t)) = None"
  shows "\<exists>d' w'. UpdateSubscriptions e d w ss = Inr (Some [(s, E)], d', w') \<and>
     (\<forall>k x. map_of (subscribers d) k = Some x \<longrightarrow>
        map_of (subscribers d') k =
          (if k \<in> UID ` set ss \<or> \<not> removable e x then Some x else None)) \<and>
     (\<forall>k. map_of (subscribers d) k = None \<longrightarrow>
        (case map_of (subscribers d') k of
           None \<Rightarrow> k \<notin> UID ` set ss \<or> k = UID s
         | Some x \<Rightarrow> k \<in> UID ` set ss \<and> k \<noteq> UID s \<and>
             (\<exists>t n. t \<in> set ss \<and> UID t = k \<and> x = new_wrapper t n)))"
proof -
  let ?d0 = "d\<lparr>consumerUpdateLock := True\<rparr>"
  from assms(1-4) obtain d1 w1 active failed d' w' where
    l1: "UpdateSubscriptions_specs e sc ss ?d0 w [] [] = (d1, w1, active, failed)"
    and sw: "swept e active (range_order e (map fst (subscribers d1)))
       (d1\<lparr>DispatcherConfig := (DispatcherConfig d1)\<lparr>SubscriberSpecs := []\<rparr>\<rparr>) w1 = (d', w')"
    and run: "UpdateSubscriptions e d w ss = Inr (Some failed, d'\<lparr>consumerUpdateLock := False\<rparr>, w')"
    and wf1: "wf d1 w1"
    and act: "set active = UID ` set ss \<inter> dom (map_of (subscribers d1))"
    and ks: "set (range_order e (map fst (subscribers d1))) = dom (map_of (subscribers d1))"
    by (rule UpdateSubscriptions_returns)
  let ?d2 = "d1\<lparr>DispatcherConfig := (DispatcherConfig d1)\<lparr>SubscriberSpecs := []\<rparr>\<rparr>"
  have reg: "\<And>k. map_of (subscribers d') k =
     (case map_of (subscribers d1) k of
        None \<Rightarrow> None
      | Some x \<Rightarrow> if k \<in> UID ` set ss \<or> \<not> removable e x then Some x else None)"
  proof -
    fix k
    from wf1 have "distinct (map fst (subscribers ?d2))" by (simp add: wf_def registry_ok_def)
    from swept_registry [OF sw this, of "UID ` set ss" k] act ks show "?thesis k" by simp
  qed
  \<comment> \<open>the returned map\<close>
  have fl: "\<And>t. t \<in> set ss \<Longrightarrow> failing e sc ?d0 t = (t = s)"
    using assms(5-8) by (auto simp: failing_def)
  then have "filter (failing e sc ?d0) ss = filter (\<lambda>t. t = s) ss"
    by (auto intro: filter_cong)
  with UpdateSubscriptions_specs_failures [OF l1]
  have "failed = fold (\<lambda>t. AList.update t (failure_of e sc ?d0 t)) (filter (\<lambda>t. t = s) ss) []"
    by simp
  also have "\<dots> = [(s, failure_of e sc ?d0 s)]"
    using assms(5) by (simp add: fold_update_one)
  also have "failure_of e sc ?d0 s = E" using assms(7) by (simp add: failure_of_def)
  finally have failed: "failed = [(s, E)]" .
  \<comment> \<open>the subscribers registered before\<close>
  have old: "\<forall>k x. map_of (subscribers d) k = Some x \<longrightarrow>
        map_of (subscribers (d'\<lparr>consumerUpdateLock := False\<rparr>)) k =
          (if k \<in> UID ` set ss \<or> \<not> removable e x then Some x else None)"
  proof (intro allI impI)
    fix k x
    assume "map_of (subscribers d) k = Some x"
    then have "map_of (subscribers ?d0) k = Some x" by simp
    from UpdateSubscriptions_specs_keeps [OF l1 this] reg [of k]
    show "map_of (subscribers (d'\<lparr>consumerUpdateLock := False\<rparr>)) k =
          (if k \<in> UID ` set ss \<or> \<not> removable e x then Some x else None)" by simp
  qed
  \<comment> \<open>the new subscribers\<close>
  have dom1: "dom (map_of (subscribers d1)) =
     dom (map_of (subscribers d)) \<union>
     {k. k \<in> UID ` set ss \<and>
         CreateConsumerGroup e (Brokers (DispatcherConfig d)) sc (groupId_of k) = None}"
    using UpdateSubscriptions_specs_dom [OF l1] by simp
  have new: "\<forall>k. map_of (subscribers d) k = None \<longrightarrow>
        (case map_of (subscribers (d'\<lparr>consumerUpdateLock := False\<rparr>)) k of
           None \<Rightarrow> k \<notin> UID ` set ss \<or> k = UID s
         | Some x \<Rightarrow> k \<in> UID ` set ss \<and> k \<noteq> UID s \<and>
             (\<exists>t n. t \<in> set ss \<and> UID t = k \<and> x = new_wrapper t n))"
  proof (intro allI impI)
    fix k
    assume none: "map_of (subscribers d) k = None"
    then have none0: "map_of (subscribers ?d0) k = None" by simp
    show "case map_of (subscribers (d'\<lparr>consumerUpdateLock := False\<rparr>)) k of
           None \<Rightarrow> k \<notin> UID ` set ss \<or> k = UID s
         | Some x \<Rightarrow> k \<in> UID ` set ss \<and> k \<noteq> UID s \<and>
             (\<exists>t n. t \<in> set ss \<and> UID t = k \<and> x = new_wrapper t n)"
    proof (cases "map_of (subscribers d1) k")
      case None
      with reg [of k] have r: "map_of (subscribers d') k = None" by simp
      have "k \<notin> UID ` set ss \<or> k = UID s"
      proof (rule ccontr)
        assume "\<not> (k \<notin> UID ` set ss \<or> k = UID s)"
        then obtain t where t: "t \<in> set ss" "UID t = k" "k \<noteq> UID s" by auto
        with assms(8) none have
          "CreateConsumerGroup e (Brokers (DispatcherConfig d)) sc (groupId_of k) = None" by auto
        with t dom1 have "k \<in> dom (map_of (subscribers d1))" by auto
        with None show False by auto
      qed
      with r show ?thesis by simp
    next
      case (Some x)
      from UpdateSubscriptions_specs_new [OF l1 Some none0]
      obtain t n where t: "t \<in> set ss" "UID t = k" "x = new_wrapper t n" by blast
      from Some dom1 none have ok: "CreateConsumerGroup e (Brokers (DispatcherConfig d)) sc (groupId_of k) = None"
        by auto
      with assms(7) have "k \<noteq> UID s" by auto
      moreover from Some t reg [of k] have "map_of (subscribers d') k = Some x" by auto
      ultimately show ?thesis using t by auto
    qed
  qed
  from run failed old new show ?thesis by blast
qed

theorem UpdateSubscriptions_one_failure_witness:
  "wf dispatcher_A world_A \<and> range_ok env_B_fails
   \<and> CreateConsumerGroup env_B_fails (Brokers (DispatcherConfig dispatcher_A)) sarama0
        (groupId_of (UID (spec_of ''B''))) = Some ''no broker''
   \<and> (\<exists>d' w'. UpdateSubscriptions env_B_fails dispatcher_A world_A [spec_of ''B'', spec_of ''C'']
                 = Inr (Some [(spec_of ''B'', ''no broker'')], d', w')
        \<and> map_of (subscribers d') ''A'' = Some (wrapper_of ''A'' 0)
        \<and> map_of (subscribers d') ''B'' = None)"
proof -
  have h1: "SaramaConfig (DispatcherConfig dispatcher_A) = Some sarama0"
    by (simp add: example_defs)
  have h2: "wf dispatcher_A world_A"
    by (simp add: wf_def registry_ok_def example_defs)
  have h3: "range_ok env_B_fails"
    by (simp add: range_ok_def env_B_fails_def env0_def)
  have h4: "\<forall>(k, x) \<in> set (subscribers dispatcher_A).
      k \<notin> UID ` set [spec_of ''B'', spec_of ''C''] \<longrightarrow>
      ConsumerGroup x \<noteq> None \<longrightarrow> StopChan x \<notin> set (closed_chans world_A)"
    by (simp add: example_defs)
  have h5: "spec_of ''B'' \<in> set [spec_of ''B'', spec_of ''C'']" by simp
  have h6: "map_of (subscribers dispatcher_A) (UID (spec_of ''B'')) = None"
    by (simp add: example_defs)
  have h7: "CreateConsumerGroup env_B_fails (Brokers (DispatcherConfig dispatcher_A)) sarama0
        (groupId_of (UID (spec_of ''B''))) = Some ''no broker''"
    by (simp add: env_B_fails_def example_defs groupId_of_def)
  have h8: "\<forall>t\<in>set [spec_of ''B'', spec_of ''C'']. t \<noteq> spec_of ''B'' \<longrightarrow>
      map_of (subscribers dispatcher_A) (UID t) = None \<longrightarrow>
      CreateConsumerGroup env_B_fails (Brokers (DispatcherConfig dispatcher_A)) sarama0
        (groupId_of (UID t)) = None"
    by (simp add: env_B_fails_def example_defs groupId_of_def)
  have a: "map_of (subscribers dispatcher_A) ''A'' = Some (wrapper_of ''A'' 0)"
    by (simp add: example_defs)
  have rm: "\<not> removable env_B_fails (wrapper_of ''A'' 0)"
    by (simp add: removable_def env_B_fails_def wrapper_of_def)
  from UpdateSubscriptions_one_failure [OF h1 h2 h3 h4 h5 h6 h7 h8]
  obtain d' w' where
    run: "UpdateSubscriptions env_B_fails dispatcher_A world_A [spec_of ''B'', spec_of ''C'']
            = Inr (Some [(spec_of ''B'', ''no broker'')], d', w')"
    and old: "\<forall>k x. map_of (subscribers dispatcher_A) k = Some x \<longrightarrow>
        map_of (subscribers d') k =
          (if k \<in> UID ` set [spec_of ''B'', spec_of ''C''] \<or> \<not> removable env_B_fails x
           then Some x else None)"
    and new: "\<forall>k. map_of (subscribers dispatcher_A) k = None \<longrightarrow>
        (case map_of (subscribers d') k of
           None \<Rightarrow> k \<notin> UID ` set [spec_of ''B'', spec_of ''C''] \<or> k = UID (spec_of ''B'')
         | Some x \<Rightarrow> k \<in> UID ` set [spec_of ''B'', spec_of ''C''] \<and> k \<noteq> UID (spec_of ''B'') \<and>
             (\<exists>t n. t \<in> set [spec_of ''B'', spec_of ''C''] \<and> UID t = k \<and> x = new_wrapper t n))"
    by blast
  from old a rm have ra: "map_of (subscribers d') ''A'' = Some (wrapper_of ''A'' 0)" by simp
  have ub: "UID (spec_of ''B'') = ''B''" by (simp add: spec_of_def)
  from new [rule_format, of "''B''"] h6 ub have rb: "map_of (subscribers d') ''B'' = None"
    by (cases "map_of (subscribers d') ''B''") auto
  from h2 h3 h7 run ra rb show ?thesis by blast
qed

subsection \<open>After a call that returned\<close>

lemma fold_update_nonempty:
  "xs \<noteq> [] \<or> acc \<noteq> [] \<Longrightarrow> fold (\<lambda>t. AList.update t (g t)) xs acc \<noteq> []"
  by (induction xs arbitrary: acc) auto

lemma UpdateSubscriptions_wf:
  assumes "UpdateSubscriptions e d w ss = Inr (r, d', w')" "wf d w"
  shows "wf d' w'"
proof (cases "SaramaConfig (DispatcherConfig d)")
  case None
  with assms show ?thesis by (simp add: UpdateSubscriptions_def)
next
  case (Some sc)
  from assms(1) Some obtain d1 w1 active failed d3 where
    l1: "UpdateSubscriptions_specs e sc ss (d\<lparr>consumerUpdateLock := True\<rparr>) w [] []
       = (d1, w1, active, failed)"
    and l2: "UpdateSubscriptions_range e active (range_order e (map fst (subscribers d1)))
       (d1\<lparr>DispatcherConfig := (DispatcherConfig d1)\<lparr>SubscriberSpecs := []\<rparr>\<rparr>) w1 = Inr (d3, w')"
    and d': "d' = d3\<lparr>consumerUpdateLock := False\<rparr>"
    by (rule UpdateSubscriptions_parts)
  from assms(2) have "wf (d\<lparr>consumerUpdateLock := True\<rparr>) w" by simp
  from UpdateSubscriptions_specs_wf [OF l1 this] have "wf d1 w1" .
  with UpdateSubscriptions_range_returned [OF l2] d' show ?thesis by simp
qed

text \<open>After a call that returned the empty map, every specified subscriber is
  registered.\<close>

lemma UpdateSubscriptions_success:
  assumes "UpdateSubscriptions e d w ss = Inr (Some [], d', w')"
    and "SaramaConfig (DispatcherConfig d) = Some sc"
  shows "UID ` set ss \<subseteq> dom (map_of (subscribers d'))"
    and "SaramaConfig (DispatcherConfig d') = Some sc"
proof -
  let ?d0 = "d\<lparr>consumerUpdateLock := True\<rparr>"
  from assms obtain d1 w1 active failed d3 where
    l1: "UpdateSubscriptions_specs e sc ss ?d0 w [] [] = (d1, w1, active, failed)"
    and l2: "UpdateSubscriptions_range e active (range_order e (map fst (subscribers d1)))
       (d1\<lparr>DispatcherConfig := (DispatcherConfig d1)\<lparr>SubscriberSpecs := []\<rparr>\<rparr>) w1 = Inr (d3, w')"
    and d': "d' = d3\<lparr>consumerUpdateLock := False\<rparr>" and f: "Some [] = Some failed"
    by (rule UpdateSubscriptions_parts)
  from f UpdateSubscriptions_specs_failures [OF l1]
  have "fold (\<lambda>s. AList.update s (failure_of e sc ?d0 s)) (filter (failing e sc ?d0) ss) [] = []"
    by simp
  with fold_update_nonempty [of "filter (failing e sc ?d0) ss" "[]" "failure_of e sc ?d0"]
  have nf: "filter (failing e sc ?d0) ss = []" by blast
  have "UID ` set ss \<subseteq> dom (map_of (subscribers d1))"
  proof
    fix k assume "k \<in> UID ` set ss"
    then obtain t where t: "t \<in> set ss" "UID t = k" by auto
    with nf have "\<not> failing e sc ?d0 t" by (auto simp: filter_empty_conv)
    with t UpdateSubscriptions_specs_dom [OF l1] show "k \<in> dom (map_of (subscribers d1))"
      by (auto simp: failing_def)
  qed
  moreover from UpdateSubscriptions_specs_active [OF l1]
  have "set active = UID ` set ss \<inter> dom (map_of (subscribers d1))" by simp
  moreover from UpdateSubscriptions_range_returned [OF l2]
  have "\<forall>k\<in>set active. map_of (subscribers d3) k = map_of (subscribers d1) k" by simp
  ultimately show "UID ` set ss \<subseteq> dom (map_of (subscribers d'))"
    using d' by (auto simp: dom_def subset_iff)
  from UpdateSubscriptions_frame [OF assms(1)] assms(2)
  show "SaramaConfig (DispatcherConfig d') = Some sc" by auto
qed

text \<open>A call whose specified subscribers are all registered creates nothing: it is the
  second loop only.\<close>

lemma UpdateSubscriptions_all_registered:
  assumes cfg: "SaramaConfig (DispatcherConfig d) = Some sc"
    and wf: "wf d w" and ro: "range_ok e"
    and open_chans: "\<forall>(k, x) \<in> set (subscribers d). k \<notin> UID ` set ss \<longrightarrow>
           ConsumerGroup x \<noteq> None \<longrightarrow> StopChan x \<notin> set (closed_chans w)"
    and reg: "UID ` set ss \<subseteq> dom (map_of (subscribers d))"
  obtains active d' w' where
    "set active = UID ` set ss"
    "swept e active (range_order e (map fst (subscribers d)))
       (d\<lparr>consumerUpdateLock := True,
          DispatcherConfig := (DispatcherConfig d)\<lparr>SubscriberSpecs := []\<rparr>\<rparr>) w = (d', w')"
    "UpdateSubscriptions e d w ss = Inr (Some [], d'\<lparr>consumerUpdateLock := False\<rparr>, w')"
    "set (range_order e (map fst (subscribers d))) = dom (map_of (subscribers d))"
proof -
  let ?d0 = "d\<lparr>consumerUpdateLock := True\<rparr>"
  from reg have "\<forall>s\<in>set ss. map_of (subscribers ?d0) (UID s) \<noteq> None" by auto
  from UpdateSubscriptions_specs_registered [OF this, of e sc w "[]" "[]"]
  obtain a' where l1': "UpdateSubscriptions_specs e sc ss ?d0 w [] [] = (?d0, w, a', [])"
    and a': "set a' = UID ` set ss" by auto
  from cfg wf ro open_chans obtain d1 w1 active failed d' w' where
    l1: "UpdateSubscriptions_specs e sc ss ?d0 w [] [] = (d1, w1, active, failed)"
    and sw: "swept e active (range_order e (map fst (subscribers d1)))
       (d1\<lparr>DispatcherConfig := (DispatcherConfig d1)\<lparr>SubscriberSpecs := []\<rparr>\<rparr>) w1 = (d', w')"
    and run: "UpdateSubscriptions e d w ss = Inr (Some failed, d'\<lparr>consumerUpdateLock := False\<rparr>, w')"
    and ks: "set (range_order e (map fst (subscribers d1))) = dom (map_of (subscribers d1))"
    by (rule UpdateSubscriptions_returns)
  from l1 l1' have eq: "d1 = ?d0" "w1 = w" "active = a'" "failed = []" by simp_all
  from sw eq have "swept e a' (range_order e (map fst (subscribers d)))
       (d\<lparr>consumerUpdateLock := True,
          DispatcherConfig := (DispatcherConfig d)\<lparr>SubscriberSpecs := []\<rparr>\<rparr>) w = (d', w')"
    by simp
  with that a' run eq ks show thesis by simp
qed

lemma set_map_filter_conv:
  "set (List.map_filter f xs) = {y. \<exists>x\<in>set xs. f x = Some y}"
  by (induction xs) (auto split: option.splits)

lemma teardown_events_are:
  "ev \<in> set (teardown_events e held x) \<Longrightarrow> teardown_event held ev"
  by (auto simp: teardown_events_def split: option.splits)



subsection \<open>Removing subscribers\<close>


text \<open>A second call with subscribers that the first one registered.\<close>

lemma UpdateSubscriptions_second_call:
  assumes cfg: "SaramaConfig (DispatcherConfig d0) = Some sc"
    and wf0: "wf d0 w0" and ro: "range_ok e"
    and first: "UpdateSubscriptions e d0 w0 ss1 = Inr (Some [], d1, w1)"
    and live1: "live d1 w1"
    and sub: "UID ` set ss2 \<subseteq> UID ` set ss1"
  shows "\<exists>d2 w2 evs. UpdateSubscriptions e d1 w1 ss2 = Inr (Some [], d2, w2) \<and>
     events w2 = events w1 @ evs \<and> (\<forall>ev\<in>set evs. teardown_event True ev) \<and>
     (\<forall>k\<in>UID ` set ss1 - UID ` set ss2.
        \<exists>x. map_of (subscribers d1) k = Some x \<and>
            (\<exists>pre post. evs = pre @ teardown_events e True x @ post) \<and>
            (ConsumerGroup x \<noteq> None \<longrightarrow> StopChan x \<in> set (closed_chans w2)) \<and>
            map_of (subscribers d2) k = (if removable e x then None else Some x)) \<and>
     (\<forall>k\<in>UID ` set ss2.
        \<exists>x. map_of (subscribers d1) k = Some x \<and> map_of (subscribers d2) k = Some x \<and>
            StopChan x \<notin> set (closed_chans w2))"
proof -
  from UpdateSubscriptions_wf [OF first wf0] have wf1: "wf d1 w1" .
  then have ok1: "registry_ok d1" by (simp add: wf_def)
  from UpdateSubscriptions_success [OF first cfg]
  have reg1: "UID ` set ss1 \<subseteq> dom (map_of (subscribers d1))"
    and cfg1: "SaramaConfig (DispatcherConfig d1) = Some sc" by simp_all
  from reg1 sub have reg2: "UID ` set ss2 \<subseteq> dom (map_of (subscribers d1))" by blast
  from live1 have open_chans: "\<forall>(k, x) \<in> set (subscribers d1). k \<notin> UID ` set ss2 \<longrightarrow>
           ConsumerGroup x \<noteq> None \<longrightarrow> StopChan x \<notin> set (closed_chans w1)"
    by (auto simp: live_def)
  let ?ks = "range_order e (map fst (subscribers d1))"
  let ?dX = "d1\<lparr>consumerUpdateLock := True,
          DispatcherConfig := (DispatcherConfig d1)\<lparr>SubscriberSpecs := []\<rparr>\<rparr>"
  from cfg1 wf1 ro open_chans reg2 obtain active d' w2 where
    act: "set active = UID ` set ss2"
    and sw: "swept e active ?ks ?dX w1 = (d', w2)"
    and run: "UpdateSubscriptions e d1 w1 ss2 = Inr (Some [], d'\<lparr>consumerUpdateLock := False\<rparr>, w2)"
    and ks: "set ?ks = dom (map_of (subscribers d1))"
    by (rule UpdateSubscriptions_all_registered)
  let ?vis = "List.map_filter (map_of (subscribers d1)) ?ks"
  let ?torn = "filter (\<lambda>s. UID (SubscriberSpec s) \<notin> set active) ?vis"
  let ?evs = "concat (map (teardown_events e True) ?torn)"
  from sw have ev: "events w2 = events w1 @ ?evs"
    and cl: "closed_chans w2 =
       rev (map StopChan (filter (\<lambda>s. UID (SubscriberSpec s) \<notin> set active \<and> ConsumerGroup s \<noteq> None)
                             ?vis)) @ closed_chans w1"
    by (auto simp: swept_def)
  have vis: "\<And>x. x \<in> set ?vis \<longleftrightarrow> (\<exists>k. map_of (subscribers d1) k = Some x)"
    using ks by (auto simp: set_map_filter_conv)
  have uid: "\<And>k x. map_of (subscribers d1) k = Some x \<Longrightarrow> UID (SubscriberSpec x) = k"
    using registry_ok_lookup [OF ok1] by blast
  have regmap: "\<And>k. map_of (subscribers d') k =
     (case map_of (subscribers d1) k of
        None \<Rightarrow> None
      | Some x \<Rightarrow> if k \<in> UID ` set ss2 \<or> \<not> removable e x then Some x else None)"
  proof -
    fix k
    from ok1 have "distinct (map fst (subscribers ?dX))" by (simp add: registry_ok_def)
    from swept_registry [OF sw this, of "UID ` set ss2" k] act ks reg2 show "?thesis k"
      by (simp add: Int_absorb2)
  qed
  have tev: "\<forall>ev\<in>set ?evs. teardown_event True ev"
    by (auto dest: teardown_events_are)
  have gone: "\<forall>k\<in>UID ` set ss1 - UID ` set ss2.
        \<exists>x. map_of (subscribers d1) k = Some x \<and>
            (\<exists>pre post. ?evs = pre @ teardown_events e True x @ post) \<and>
            (ConsumerGroup x \<noteq> None \<longrightarrow> StopChan x \<in> set (closed_chans w2)) \<and>
            map_of (subscribers (d'\<lparr>consumerUpdateLock := False\<rparr>)) k
              = (if removable e x then None else Some x)"
  proof
    fix k assume k: "k \<in> UID ` set ss1 - UID ` set ss2"
    with reg1 obtain x where x: "map_of (subscribers d1) k = Some x" by auto
    from uid [OF x] k act have na: "UID (SubscriberSpec x) \<notin> set active" by simp
    from x vis have xv: "x \<in> set ?vis" by blast
    with na have "x \<in> set ?torn" by simp
    then obtain l1 l2 where "?torn = l1 @ x # l2" by (auto dest: split_list)
    then have "?evs = concat (map (teardown_events e True) l1) @ teardown_events e True x
                        @ concat (map (teardown_events e True) l2)" by simp
    then have e: "\<exists>pre post. ?evs = pre @ teardown_events e True x @ post" by blast
    from xv na cl have c: "ConsumerGroup x \<noteq> None \<longrightarrow> StopChan x \<in> set (closed_chans w2)"
      by auto
    from regmap [of k] x k
    have "map_of (subscribers (d'\<lparr>consumerUpdateLock := False\<rparr>)) k
              = (if removable e x then None else Some x)" by simp
    with x e c show "\<exists>x. map_of (subscribers d1) k = Some x \<and>
            (\<exists>pre post. ?evs = pre @ teardown_events e True x @ post) \<and>
            (ConsumerGroup x \<noteq> None \<longrightarrow> StopChan x \<in> set (closed_chans w2)) \<and>
            map_of (subscribers (d'\<lparr>consumerUpdateLock := False\<rparr>)) k
              = (if removable e x then None else Some x)" by blast
  qed
  have kept: "\<forall>k\<in>UID ` set ss2.
        \<exists>x. map_of (subscribers d1) k = Some x \<and>
            map_of (subscribers (d'\<lparr>consumerUpdateLock := False\<rparr>)) k = Some x \<and>
            StopChan x \<notin> set (closed_chans w2)"
  proof
    fix k assume k: "k \<in> UID ` set ss2"
    with reg2 obtain x where x: "map_of (subscribers d1) k = Some x" by auto
    from regmap [of k] x k
    have r: "map_of (subscribers (d'\<lparr>consumerUpdateLock := False\<rparr>)) k = Some x" by simp
    from x live1 have o1: "StopChan x \<notin> set (closed_chans w1)"
      by (auto simp: live_def dest!: map_of_SomeD)
    have "StopChan x \<notin> StopChan ` set ?torn"
    proof
      assume "StopChan x \<in> StopChan ` set ?torn"
      then obtain y where y: "y \<in> set ?vis" "UID (SubscriberSpec y) \<notin> set active"
        "StopChan x = StopChan y" by auto
      from y(1) vis obtain k' where k': "map_of (subscribers d1) k' = Some y" by blast
      from registry_ok_chan_inj [OF ok1 x k' y(3)] have "k = k'" .
      with uid [OF k'] y(2) k act show False by simp
    qed
    with o1 cl have "StopChan x \<notin> set (closed_chans w2)" by auto
    with x r show "\<exists>x. map_of (subscribers d1) k = Some x \<and>
            map_of (subscribers (d'\<lparr>consumerUpdateLock := False\<rparr>)) k = Some x \<and>
            StopChan x \<notin> set (closed_chans w2)" by blast
  qed
  from run ev tev gone kept show ?thesis by blast
qed



subsection \<open>Calling UpdateSubscriptions twice\<close>

lemma dispatcher_retained_reached:
  "UpdateSubscriptions env_close_fails (NewDispatcher config0) world0 [spec_of ''A'']
     = Inr (Some [], dispatcher_A, world_A)"
  "UpdateSubscriptions env_close_fails dispatcher_A world_A [spec_of ''B'']
     = Inr (Some [], dispatcher_retained, world_retained)"
  by (simp_all add: dispatcher_retained_def world_retained_def env_close_fails_def
        example_defs op_defs)

text \<open>When the first call leaves no subscriber whose stop channel is closed, the second
  call with the same subscribers returns the empty map and calls no factory.\<close>

lemma UpdateSubscriptions_twice:
  assumes "SaramaConfig (DispatcherConfig d0) = Some sc" "wf d0 w0" "range_ok e"
    and "UpdateSubscriptions e d0 w0 ss = Inr (Some [], d1, w1)" "live d1 w1"
  shows "\<exists>d2 w2 evs. UpdateSubscriptions e d1 w1 ss = Inr (Some [], d2, w2) \<and>
     events w2 = events w1 @ evs \<and> (\<forall>ev\<in>set evs. teardown_event True ev)"
  using UpdateSubscriptions_second_call [OF assms, of ss] by blast

text \<open>
  Claim C6. The factory of \<^const>\<open>env_close_fails\<close> always succeeds. On \<^const>\<open>dispatcher_A\<close>
  (the state of a new dispatcher after \<^verbatim>\<open>UpdateSubscriptions\<close> with \<open>A\<close>), the call with
  \<open>B\<close> returns the empty map: \<open>B\<close> is created, and \<open>A\<close>, whose consumer group fails to
  close, stays in the registry with its stop channel closed. The same call again does
  not return the empty map: it panics when the second loop closes the stop channel of
  \<open>A\<close> a second time.
\<close>

theorem UpdateSubscriptions_twice_panics:
  "UpdateSubscriptions env_close_fails dispatcher_A world_A [spec_of ''B'']
     = Inr (Some [], dispatcher_retained, world_retained)
   \<and> UpdateSubscriptions env_close_fails dispatcher_retained world_retained [spec_of ''B'']
       = Inl (Panic ''close of closed channel'')"
  by (simp add: dispatcher_retained_def world_retained_def env_close_fails_def
        example_defs op_defs)

subsection \<open>Rebuilding the dispatcher\<close>

text \<open>\<^verbatim>\<open>SubscriberSpecs\<close> after a call of \<^verbatim>\<open>UpdateSubscriptions\<close>: the specs of the registered
  subscribers that were specified.\<close>

lemma UpdateSubscriptions_retained_specs:
  assumes cfg: "SaramaConfig (DispatcherConfig d) = Some sc"
    and wf: "wf d w" and ro: "range_ok e"
    and open_chans: "\<forall>(k, x) \<in> set (subscribers d). k \<notin> UID ` set ss \<longrightarrow>
           ConsumerGroup x \<noteq> None \<longrightarrow> StopChan x \<notin> set (closed_chans w)"
  shows "\<exists>r d' w'. UpdateSubscriptions e d w ss = Inr (r, d', w') \<and>
     set (SubscriberSpecs (DispatcherConfig d')) =
       {SubscriberSpec x |k x. k \<in> UID ` set ss \<and> map_of (subscribers d') k = Some x}"
proof -
  from assms obtain d1 w1 active failed d' w' where
    sw: "swept e active (range_order e (map fst (subscribers d1)))
       (d1\<lparr>DispatcherConfig := (DispatcherConfig d1)\<lparr>SubscriberSpecs := []\<rparr>\<rparr>) w1 = (d', w')"
    and run: "UpdateSubscriptions e d w ss = Inr (Some failed, d'\<lparr>consumerUpdateLock := False\<rparr>, w')"
    and wf1: "wf d1 w1"
    and act: "set active = UID ` set ss \<inter> dom (map_of (subscribers d1))"
    and ks: "set (range_order e (map fst (subscribers d1))) = dom (map_of (subscribers d1))"
    by (rule UpdateSubscriptions_returns)
  let ?ks = "range_order e (map fst (subscribers d1))"
  let ?d2 = "d1\<lparr>DispatcherConfig := (DispatcherConfig d1)\<lparr>SubscriberSpecs := []\<rparr>\<rparr>"
  from wf1 have ok1: "registry_ok d1" by (simp add: wf_def)
  then have dk: "distinct (map fst (subscribers ?d2))" by (simp add: registry_ok_def)
  have uid: "\<And>k x. map_of (subscribers d1) k = Some x \<Longrightarrow> UID (SubscriberSpec x) = k"
    using registry_ok_lookup [OF ok1] by blast
  from sw have specs: "SubscriberSpecs (DispatcherConfig d') =
      map SubscriberSpec (filter (\<lambda>s. UID (SubscriberSpec s) \<in> set active)
         (List.map_filter (map_of (subscribers d1)) ?ks))"
    by (auto simp: swept_def)
  have reg: "\<And>k. map_of (subscribers d') k =
     (case map_of (subscribers d1) k of
        None \<Rightarrow> None
      | Some x \<Rightarrow> if k \<in> UID ` set ss \<or> \<not> removable e x then Some x else None)"
    using swept_registry [OF sw dk, of "UID ` set ss"] act ks by simp
  have "set (SubscriberSpecs (DispatcherConfig d')) =
       {SubscriberSpec x |k x. k \<in> UID ` set ss \<and> map_of (subscribers d') k = Some x}"
  proof (intro set_eqI iffI)
    fix s assume "s \<in> set (SubscriberSpecs (DispatcherConfig d'))"
    with specs ks obtain k x where x: "map_of (subscribers d1) k = Some x"
      "UID (SubscriberSpec x) \<in> set active" "s = SubscriberSpec x"
      by (auto simp: set_map_filter_conv)
    with uid [OF x(1)] act have "k \<in> UID ` set ss" by auto
    with x reg [of k] show "s \<in> {SubscriberSpec x |k x. k \<in> UID ` set ss \<and>
        map_of (subscribers d') k = Some x}" by auto
  next
    fix s assume "s \<in> {SubscriberSpec x |k x. k \<in> UID ` set ss \<and>
        map_of (subscribers d') k = Some x}"
    then obtain k x where k: "k \<in> UID ` set ss" "map_of (subscribers d') k = Some x"
      "s = SubscriberSpec x" by blast
    with reg [of k] have x: "map_of (subscribers d1) k = Some x"
      by (auto split: option.splits if_splits)
    with k act uid [OF x] have "UID (SubscriberSpec x) \<in> set active" by auto
    moreover from x ks have "x \<in> set (List.map_filter (map_of (subscribers d1)) ?ks)"
      by (auto simp: set_map_filter_conv)
    ultimately show "s \<in> set (SubscriberSpecs (DispatcherConfig d'))"
      using specs k by auto
  qed
  with run show ?thesis by auto
qed

text \<open>On a dispatcher none of whose subscribers has its stop channel closed, a change of
  the consumer settings shuts the dispatcher down (every subscriber with a consumer group
  gets its stop signal) and calls \<^verbatim>\<open>UpdateSubscriptions\<close> on a new dispatcher, which holds
  the merged configuration, with the \<^verbatim>\<open>SubscriberSpecs\<close> of the old one.\<close>

lemma ConfigChanged_rebuild:
  assumes cfg: "SaramaConfig (DispatcherConfig d) = Some cur"
    and merge: "MergeSaramaSettings e configMap = Inr merged"
    and differs: "Consumer merged \<noteq> Consumer cur"
    and ok: "registry_ok d" and live: "live d w" and ro: "range_ok e"
    and nc: "newConfig = UpdateSaramaConfig merged (ClientID cur) (SASL_User cur) (SASL_Password cur)"
  shows "\<exists>d1 w1. Shutdown e d w = Inr (d1, w1) \<and>
     DispatcherConfig d1 = DispatcherConfig d \<and>
     (\<forall>(k, x) \<in> set (subscribers d). ConsumerGroup x \<noteq> None \<longrightarrow> StopChan x \<in> set (closed_chans w1)) \<and>
     ConfigChanged e d w configMap =
       (case UpdateSubscriptions e
               (NewDispatcher ((DispatcherConfig d)\<lparr>SaramaConfig := Some newConfig\<rparr>)) w1
               (SubscriberSpecs (DispatcherConfig d)) of
          Inl a \<Rightarrow> Inl a
        | Inr (failed, nd, w2) \<Rightarrow>
            if 0 < map_len failed then Inl (Fatal (map_len failed))
            else Inr (Some nd,
                      d1\<lparr>DispatcherConfig := (DispatcherConfig d)\<lparr>SaramaConfig := Some newConfig\<rparr>\<rparr>,
                      w2))"
proof -
  let ?ks = "range_order e (map fst (subscribers d))"
  obtain d1 w1 where sw: "swept e [] ?ks d w = (d1, w1)" by (cases "swept e [] ?ks d w")
  from Shutdown_swept [OF ok ro live] sw have sh: "Shutdown e d w = Inr (d1, w1)" by simp
  from sw have c1: "DispatcherConfig d1 = DispatcherConfig d"
    by (auto simp: swept_def)
  from ok have "distinct (map fst (subscribers d))" by (simp add: registry_ok_def)
  with ro have ks: "set ?ks = fst ` set (subscribers d)" by (simp add: range_ok_def)
  have sig: "\<forall>(k, x) \<in> set (subscribers d). ConsumerGroup x \<noteq> None \<longrightarrow>
      StopChan x \<in> set (closed_chans w1)"
  proof (clarify)
    fix k x y assume kx: "(k, x) \<in> set (subscribers d)" and cg: "ConsumerGroup x = Some y"
    from ok kx have "map_of (subscribers d) k = Some x" by (simp add: registry_ok_def)
    moreover from kx ks have "k \<in> set ?ks" by force
    ultimately have "x \<in> set (List.map_filter (map_of (subscribers d)) ?ks)"
      by (auto simp: set_map_filter_conv)
    with sw cg show "StopChan x \<in> set (closed_chans w1)"
      by (auto simp: swept_def)
  qed
  from differs nc have ne: "\<not> ConfigEqual newConfig cur"
    by (simp add: ConfigEqual_def UpdateSaramaConfig_def)
  have "ConfigChanged e d w configMap =
       (case UpdateSubscriptions e
               (NewDispatcher ((DispatcherConfig d)\<lparr>SaramaConfig := Some newConfig\<rparr>)) w1
               (SubscriberSpecs (DispatcherConfig d)) of
          Inl a \<Rightarrow> Inl a
        | Inr (failed, nd, w2) \<Rightarrow>
            if 0 < map_len failed then Inl (Fatal (map_len failed))
            else Inr (Some nd,
                      d1\<lparr>DispatcherConfig := (DispatcherConfig d)\<lparr>SaramaConfig := Some newConfig\<rparr>\<rparr>,
                      w2))"
    using cfg merge ne sh c1 nc
    by (simp add: ConfigChanged_def Let_def split: sum.splits prod.splits)
  with sh c1 sig show ?thesis by blast
qed

text \<open>
  Claim C2. \<^const>\<open>dispatcher_retained\<close> has a configuration, and the overlay
  \<^const>\<open>cm_consumer\<close> changes a consumer setting. \<^verbatim>\<open>ConfigChanged\<close> does not construct a new
  dispatcher and does not call \<^verbatim>\<open>UpdateSubscriptions\<close> with the retained spec of \<open>B\<close>: its
  \<^verbatim>\<open>Shutdown\<close> panics when it closes the stop channel of \<open>A\<close> a second time.
\<close>

theorem ConfigChanged_rebuild_panics:
  "SaramaConfig (DispatcherConfig dispatcher_retained) = Some sarama0
   \<and> MergeSaramaSettings env_close_fails cm_consumer
       = Inr \<lparr>ClientID = ''overlay'', SASL_User = ''ou'', SASL_Password = ''op'',
              Producer = [(''acks'', ''1'')], Consumer = [(''offsets'', ''new'')]\<rparr>
   \<and> Consumer sarama0 \<noteq> [(''offsets'', ''new'')]
   \<and> SubscriberSpecs (DispatcherConfig dispatcher_retained) = [spec_of ''B'']
   \<and> Shutdown env_close_fails dispatcher_retained world_retained
       = Inl (Panic ''close of closed channel'')
   \<and> ConfigChanged env_close_fails dispatcher_retained world_retained cm_consumer
       = Inl (Panic ''close of closed channel'')"
  by (simp add: dispatcher_retained_def world_retained_def env_close_fails_def
        example_defs op_defs)

subsection \<open>Well-formed states\<close>

text \<open>Every state that the operations reach from a new dispatcher is well-formed.\<close>

lemma NewDispatcher_wf: "wf (NewDispatcher c) w"
  by (simp add: wf_def registry_ok_def NewDispatcher_def)

lemma Shutdown_wf:
  assumes "Shutdown e d w = Inr (d', w')" "wf d w"
  shows "wf d' w'"
proof -
  from assms(1) have "UpdateSubscriptions_range e [] (range_order e (map fst (subscribers d))) d w
      = Inr (d', w')"
    by (simp add: Shutdown_def Shutdown_range_is_sweep)
  from UpdateSubscriptions_range_returned [OF this] assms(2) show ?thesis by simp
qed

lemma ConfigChanged_wf:
  assumes "ConfigChanged e d w configMap = Inr (r, d', w')" "wf d w"
  shows "case r of None \<Rightarrow> wf d' w' | Some nd \<Rightarrow> wf nd w'"
proof (cases r)
  case None
  with assms have "d' = d \<and> w' = w"
    by (auto simp: ConfigChanged_def Let_def split: sum.splits option.splits if_splits)
  with assms(2) None show ?thesis by simp
next
  case (Some nd)
  with assms obtain w1 c ss f where
    "UpdateSubscriptions e (NewDispatcher c) w1 ss = Inr (f, nd, w')"
    by (auto simp: ConfigChanged_def Let_def split: sum.splits option.splits if_splits)
  from UpdateSubscriptions_wf [OF this NewDispatcher_wf] Some show ?thesis by simp
qed

subsection \<open>Shutting down\<close>

lemma Shutdown_range_frame:
  "Shutdown_range e ks d w = Inr (d', w') \<Longrightarrow> DispatcherConfig d' = DispatcherConfig d"
proof (induction ks arbitrary: d w)
  case Nil
  then show ?case by simp
next
  case (Cons k ks)
  show ?case
  proof (cases "map_of (subscribers d) k")
    case None
    with Cons show ?thesis by simp
  next
    case (Some s)
    with Cons.prems obtain d1 w1 where c: "closeConsumerGroup e d w s = Inr (d1, w1)"
      and r: "Shutdown_range e ks d1 w1 = Inr (d', w')"
      by (auto split: sum.splits)
    from Cons.IH [OF r] closeConsumerGroup_frame [OF c] show ?thesis by simp
  qed
qed

lemma Shutdown_frame:
  "Shutdown e d w = Inr (d', w') \<Longrightarrow> DispatcherConfig d' = DispatcherConfig d"
  unfolding Shutdown_def by (rule Shutdown_range_frame)

text \<open>\<^verbatim>\<open>Shutdown\<close> on a dispatcher none of whose subscribers has its stop channel closed
  returns after it has torn down every subscriber: each one with a consumer group gets
  its stop signal and then the \<^verbatim>\<open>Close()\<close>, and the registry keeps exactly those whose
  \<^verbatim>\<open>Close()\<close> failed.\<close>

lemma Shutdown_teardown:
  assumes ok: "registry_ok d" and ro: "range_ok e" and live: "live d w"
  shows "\<exists>d' w' evs. Shutdown e d w = Inr (d', w') \<and> events w' = events w @ evs \<and>
     (\<forall>k. map_of (subscribers d') k =
        (case map_of (subscribers d) k of
           None \<Rightarrow> None
         | Some x \<Rightarrow> if removable e x then None else Some x)) \<and>
     (\<forall>k x. map_of (subscribers d) k = Some x \<longrightarrow>
        (\<exists>pre post. evs = pre @ teardown_events e (consumerUpdateLock d) x @ post) \<and>
        (ConsumerGroup x \<noteq> None \<longrightarrow> StopChan x \<in> set (closed_chans w')))"
proof -
  let ?ks = "range_order e (map fst (subscribers d))"
  let ?vis = "List.map_filter (map_of (subscribers d)) ?ks"
  let ?evs = "concat (map (teardown_events e (consumerUpdateLock d)) ?vis)"
  obtain d' w' where sw: "swept e [] ?ks d w = (d', w')" by (cases "swept e [] ?ks d w")
  from Shutdown_swept [OF ok ro live] sw have sh: "Shutdown e d w = Inr (d', w')" by simp
  from ok have dk: "distinct (map fst (subscribers d))" by (simp add: registry_ok_def)
  with ro have ks: "set ?ks = dom (map_of (subscribers d))"
    by (simp add: range_ok_def dom_map_of_conv_image_fst)
  from sw have ev: "events w' = events w @ ?evs"
    and cl: "closed_chans w' =
       rev (map StopChan (filter (\<lambda>s. ConsumerGroup s \<noteq> None) ?vis)) @ closed_chans w"
    by (auto simp: swept_def)
  have reg: "\<forall>k. map_of (subscribers d') k =
        (case map_of (subscribers d) k of
           None \<Rightarrow> None
         | Some x \<Rightarrow> if removable e x then None else Some x)"
    using swept_registry [OF sw dk, of "{}"] ks by (auto split: option.splits)
  have each: "\<forall>k x. map_of (subscribers d) k = Some x \<longrightarrow>
        (\<exists>pre post. ?evs = pre @ teardown_events e (consumerUpdateLock d) x @ post) \<and>
        (ConsumerGroup x \<noteq> None \<longrightarrow> StopChan x \<in> set (closed_chans w'))"
  proof (intro allI impI)
    fix k x assume x: "map_of (subscribers d) k = Some x"
    with ks have xv: "x \<in> set ?vis" by (auto simp: set_map_filter_conv)
    then obtain l1 l2 where "?vis = l1 @ x # l2" by (auto dest: split_list)
    then have "?evs = concat (map (teardown_events e (consumerUpdateLock d)) l1)
         @ teardown_events e (consumerUpdateLock d) x
         @ concat (map (teardown_events e (consumerUpdateLock d)) l2)" by simp
    then have "\<exists>pre post. ?evs = pre @ teardown_events e (consumerUpdateLock d) x @ post"
      by blast
    moreover from xv cl have "ConsumerGroup x \<noteq> None \<longrightarrow> StopChan x \<in> set (closed_chans w')"
      by auto
    ultimately show "(\<exists>pre post. ?evs = pre @ teardown_events e (consumerUpdateLock d) x @ post) \<and>
        (ConsumerGroup x \<noteq> None \<longrightarrow> StopChan x \<in> set (closed_chans w'))" by simp
  qed
  from sh ev reg each show ?thesis by blast
qed

text \<open>In a rebuild, one retained spec for whose group the factory fails under the new
  configuration is enough for \<^verbatim>\<open>Logger.Fatal\<close>.\<close>

lemma ConfigChanged_fatal_on_failure:
  assumes merge: "MergeSaramaSettings e configMap = Inr merged"
    and nc: "newConfig = (case SaramaConfig (DispatcherConfig d) of
                          None \<Rightarrow> merged
                        | Some cur \<Rightarrow> UpdateSaramaConfig merged (ClientID cur) (SASL_User cur)
                                       (SASL_Password cur))"
    and differs: "\<forall>cur. SaramaConfig (DispatcherConfig d) = Some cur \<longrightarrow> \<not> ConfigEqual newConfig cur"
    and sh: "Shutdown e d w = Inr (d1, w1)" and ro: "range_ok e"
    and s: "s \<in> set (SubscriberSpecs (DispatcherConfig d))"
    and fails: "CreateConsumerGroup e (Brokers (DispatcherConfig d)) newConfig (groupId_of (UID s))
                  \<noteq> None"
  shows "\<exists>n. 0 < n \<and> ConfigChanged e d w configMap = Inl (Fatal n)"
proof -
  from Shutdown_frame [OF sh] have c1: "DispatcherConfig d1 = DispatcherConfig d" .
  let ?c = "(DispatcherConfig d1)\<lparr>SaramaConfig := Some newConfig\<rparr>"
  let ?nd = "NewDispatcher ?c"
  let ?ss = "SubscriberSpecs (DispatcherConfig d1)"
  have cfg: "SaramaConfig (DispatcherConfig ?nd) = Some newConfig"
    by (simp add: NewDispatcher_def)
  have wfn: "wf ?nd w1" by (rule NewDispatcher_wf)
  have op: "\<forall>(k, x) \<in> set (subscribers ?nd). k \<notin> UID ` set ?ss \<longrightarrow>
           ConsumerGroup x \<noteq> None \<longrightarrow> StopChan x \<notin> set (closed_chans w1)"
    by (simp add: NewDispatcher_def)
  let ?d0 = "?nd\<lparr>consumerUpdateLock := True\<rparr>"
  from cfg wfn ro op obtain dm wm active failed d' w' where
    l1: "UpdateSubscriptions_specs e newConfig ?ss ?d0 w1 [] [] = (dm, wm, active, failed)"
    and run: "UpdateSubscriptions e ?nd w1 ?ss = Inr (Some failed, d'\<lparr>consumerUpdateLock := False\<rparr>, w')"
    by (rule UpdateSubscriptions_returns)
  from s fails c1 have "failing e newConfig ?d0 s"
    by (simp add: failing_def NewDispatcher_def)
  with s c1 have ne: "filter (failing e newConfig ?d0) ?ss \<noteq> []"
    by (auto simp: filter_empty_conv)
  have "failed \<noteq> []"
    unfolding UpdateSubscriptions_specs_failures [OF l1]
    using ne by (intro fold_update_nonempty) simp
  then have pos: "0 < map_len (Some failed)" by (simp add: map_len_def)
  have "ConfigChanged e d w configMap = Inl (Fatal (map_len (Some failed)))"
  proof (cases "SaramaConfig (DispatcherConfig d)")
    case None
    with merge nc sh run pos show ?thesis
      by (simp add: ConfigChanged_def Let_def)
  next
    case (Some cur)
    with differs have "\<not> ConfigEqual newConfig cur" by simp
    with Some merge nc sh run pos show ?thesis
      by (simp add: ConfigChanged_def Let_def)
  qed
  with pos show ?thesis by blast
qed

subsection \<open>The mutex\<close>

lemma creation_event_mutation: "creation_event held ev \<Longrightarrow> mutation_under held ev"
  by (cases ev) auto

lemma teardown_event_mutation: "teardown_event held ev \<Longrightarrow> mutation_under held ev"
  by (cases ev) auto

lemma UpdateSubscriptions_under_lock:
  assumes "UpdateSubscriptions e d w ss = Inr (r, d', w')"
  shows "\<exists>evs. events w' = events w @ evs \<and> (\<forall>ev\<in>set evs. mutation_under True ev) \<and>
           (SaramaConfig (DispatcherConfig d) \<noteq> None \<longrightarrow> \<not> consumerUpdateLock d')"
proof (cases "SaramaConfig (DispatcherConfig d)")
  case None
  with assms have "w' = w" by (simp add: UpdateSubscriptions_def)
  with None show ?thesis by simp
next
  case (Some sc)
  from assms Some obtain d1 w1 active failed d3 where
    l1: "UpdateSubscriptions_specs e sc ss (d\<lparr>consumerUpdateLock := True\<rparr>) w [] []
       = (d1, w1, active, failed)"
    and l2: "UpdateSubscriptions_range e active (range_order e (map fst (subscribers d1)))
       (d1\<lparr>DispatcherConfig := (DispatcherConfig d1)\<lparr>SubscriberSpecs := []\<rparr>\<rparr>) w1 = Inr (d3, w')"
    and d': "d' = d3\<lparr>consumerUpdateLock := False\<rparr>"
    by (rule UpdateSubscriptions_parts)
  from UpdateSubscriptions_specs_frame [OF l1] have lk: "consumerUpdateLock d1" by simp
  from UpdateSubscriptions_specs_events [OF l1] obtain evs1 where
    e1: "events w1 = events w @ evs1" "\<forall>ev\<in>set evs1. creation_event True ev" by auto
  from UpdateSubscriptions_range_returned [OF l2] lk obtain evs2 where
    e2: "events w' = events w1 @ evs2" "\<forall>ev\<in>set evs2. teardown_event True ev" by auto
  from e1 e2 have "events w' = events w @ (evs1 @ evs2)"
    "\<forall>ev\<in>set (evs1 @ evs2). mutation_under True ev"
    by (auto dest: creation_event_mutation teardown_event_mutation)
  with d' show ?thesis by (intro exI [of _ "evs1 @ evs2"]) simp
qed

lemma Shutdown_without_lock:
  assumes "Shutdown e d w = Inr (d', w')"
  shows "\<exists>evs. events w' = events w @ evs \<and>
           (\<forall>ev\<in>set evs. teardown_event (consumerUpdateLock d) ev) \<and>
           consumerUpdateLock d' = consumerUpdateLock d"
proof -
  from assms have r: "UpdateSubscriptions_range e [] (range_order e (map fst (subscribers d))) d w
      = Inr (d', w')"
    by (simp add: Shutdown_def Shutdown_range_is_sweep)
  from UpdateSubscriptions_range_returned [OF r] UpdateSubscriptions_range_frame [OF r]
  show ?thesis by auto
qed

lemma ConfigChanged_locks:
  assumes "ConfigChanged e d w configMap = Inr (r, d', w')"
  shows "\<exists>evs1 evs2. events w' = events w @ evs1 @ evs2 \<and>
           (\<forall>ev\<in>set evs1. teardown_event (consumerUpdateLock d) ev) \<and>
           (\<forall>ev\<in>set evs2. mutation_under True ev) \<and>
           consumerUpdateLock d' = consumerUpdateLock d"
proof (cases "r")
  case None
  with assms have "d' = d \<and> w' = w"
    by (auto simp: ConfigChanged_def Let_def split: sum.splits option.splits if_splits)
  then show ?thesis by simp
next
  case (Some nd)
  with assms obtain d1 w1 c f where
    sh: "Shutdown e d w = Inr (d1, w1)"
    and d': "d' = d1\<lparr>DispatcherConfig := c\<rparr>"
    and up: "UpdateSubscriptions e (NewDispatcher c) w1 (SubscriberSpecs c) = Inr (f, nd, w')"
    by (auto simp: ConfigChanged_def Let_def split: sum.splits option.splits if_splits)
  from Shutdown_without_lock [OF sh] obtain evs1 where
    e1: "events w1 = events w @ evs1" "\<forall>ev\<in>set evs1. teardown_event (consumerUpdateLock d) ev"
      "consumerUpdateLock d1 = consumerUpdateLock d" by blast
  from UpdateSubscriptions_under_lock [OF up] obtain evs2 where
    e2: "events w' = events w1 @ evs2" "\<forall>ev\<in>set evs2. mutation_under True ev" by blast
  from e1 e2 d' show ?thesis by auto
qed

text \<open>
  Claim C9. \<^verbatim>\<open>UpdateSubscriptions\<close> registers \<open>A\<close> with the mutex held (the lemma above
  gives this for every call). \<^verbatim>\<open>Shutdown\<close> has no \<^verbatim>\<open>Lock()\<close>: on \<^const>\<open>dispatcher_A\<close>, whose
  mutex nobody holds, it ranges over the registry and deletes \<open>A\<close> from it with the mutex
  not held. \<^verbatim>\<open>ConfigChanged\<close> has none either: with an overlay that changes a consumer
  setting it deletes \<open>A\<close> through the same \<^verbatim>\<open>Shutdown\<close>, the mutex not held, before the new
  dispatcher registers \<open>A\<close> under its own mutex.
\<close>

theorem Shutdown_deletes_without_lock:
  "UpdateSubscriptions env0 (NewDispatcher config0) world0 [spec_of ''A'']
     = Inr (Some [], dispatcher_A, world_A)
   \<and> events world_A = [GroupCreated ''kafka.A'' 0, ConsumingStarted ''A'' 0, Registered ''A'' True]
   \<and> \<not> consumerUpdateLock dispatcher_A
   \<and> Shutdown env0 dispatcher_A world_A
       = Inr (dispatcher_A\<lparr>subscribers := []\<rparr>,
              world_A\<lparr>closed_chans := [1],
                      events := events world_A @
                        [StopSignalled 1, GroupClosed 0, Deregistered ''A'' False]\<rparr>)
   \<and> events_after (ConfigChanged env0 dispatcher_A world_A cm_consumer)
       = events world_A @
           [StopSignalled 1, GroupClosed 0, Deregistered ''A'' False,
            GroupCreated ''kafka.A'' 2, ConsumingStarted ''A'' 2, Registered ''A'' True]"
  by (simp add: events_after_def example_defs op_defs)

subsection \<open>A failure to close, and the next teardown\<close>

text \<open>
  Claim C3. The escalation in \<^verbatim>\<open>ConfigChanged\<close> is as the claim says (\<open>ConfigChanged_fatal\<close>
  above), but it is not the only failure that is not contained. On \<^const>\<open>dispatcher_A\<close>,
  with a consumer group of \<open>A\<close> that fails to close, \<^verbatim>\<open>Shutdown\<close> returns: the failure is
  logged and \<open>A\<close> stays in the registry, its stop channel closed. The next \<^verbatim>\<open>Shutdown\<close>
  does not return: the failure to close has become a run-time panic of the process, which
  no code of the dispatcher recovers.
\<close>

theorem close_failure_ends_in_panic:
  "Shutdown env_close_fails dispatcher_A world_A = Inr (dispatcher_A, world_A_close_failed)
   \<and> Shutdown env_close_fails dispatcher_A world_A_close_failed
       = Inl (Panic ''close of closed channel'')"
  by (simp add: world_A_close_failed_def env_close_fails_def example_defs op_defs)

end
